theory Spec2Isabelle
  imports Main
begin

section \<open>JavaScript values and typed arrays\<close>

text \<open>
  A JavaScript number that the engine uses as an index, an identifier or an array cell is an
  integer; reading a typed array outside its bounds yields \<open>undefined\<close>, and arithmetic on
  \<open>undefined\<close> yields \<open>NaN\<close>. Both are the value \<open>None\<close> here: the code compares such
  values only with numbers (\<open>=== -1\<close>, \<open>=== 0\<close>, \<open>=== 1\<close>), where both compare unequal, and
  uses them as typed-array indices, where both read \<open>undefined\<close> and make a write a no-op.

  An \<open>Int32Array\<close> or \<open>Uint8Array\<close> is a list of integers of fixed length. Cells hold
  mathematical integers: the 32-bit wrap-around of a cell is not modelled, since every value the
  engine stores is an index into one of its own arrays or a point below the degree.
\<close>

type_synonym jsnum = "int option"

definition jadd :: "jsnum \<Rightarrow> jsnum \<Rightarrow> jsnum" where
  "jadd a b = (case a of None \<Rightarrow> None | Some x \<Rightarrow> (case b of None \<Rightarrow> None | Some y \<Rightarrow> Some (x + y)))"

definition jmul :: "jsnum \<Rightarrow> jsnum \<Rightarrow> jsnum" where
  "jmul a b = (case a of None \<Rightarrow> None | Some x \<Rightarrow> (case b of None \<Rightarrow> None | Some y \<Rightarrow> Some (x * y)))"

definition toInt32 :: "jsnum \<Rightarrow> int" where
  "toInt32 v = (case v of None \<Rightarrow> 0 | Some x \<Rightarrow> x)"

definition ta_get :: "int list \<Rightarrow> jsnum \<Rightarrow> jsnum" where
  "ta_get a i = (case i of None \<Rightarrow> None
                 | Some k \<Rightarrow> if 0 \<le> k \<and> k < int (length a) then Some (a ! nat k) else None)"

definition ta_set :: "int list \<Rightarrow> jsnum \<Rightarrow> jsnum \<Rightarrow> int list" where
  "ta_set a i v = (case i of None \<Rightarrow> a
                   | Some k \<Rightarrow> if 0 \<le> k \<and> k < int (length a) then a[nat k := toInt32 v] else a)"

datatype error =
    IdentityNotZero
  | PointOutOfBounds int nat
  | HLargerThanG
  | UnknownGeneratorsType
  | InvalidInput
  | BigIntDivisionByZero
  | NMustDivideG
  | QuotientIndexTooLarge nat
  | CosetEnumerationOverflow
  | CosetClosureError
  | InvalidCycleNotation string

section \<open>The permutation repository\<close>

definition INITIAL_TRIE_SLOTS :: nat where
  "INITIAL_TRIE_SLOTS = (1024 * 1024) div 4"

record repo =
  globalDegree :: nat
  count :: nat
  permCapacity :: nat
  permBuffer :: "int list"
  trieNodeSize :: nat
  trieBuffer :: "int list"
  trieFreePtr :: nat

definition expandTrieBuffer :: "repo \<Rightarrow> repo" where
  "expandTrieBuffer r = r\<lparr>trieBuffer := trieBuffer r @ replicate (length (trieBuffer r)) 0\<rparr>"

definition allocateNode :: "repo \<Rightarrow> nat \<times> repo" where
  "allocateNode r =
     (let r1 = (if trieFreePtr r + trieNodeSize r > length (trieBuffer r)
                then expandTrieBuffer r else r);
          ptr = trieFreePtr r1;
          size = trieNodeSize r1;
          buf = fold (\<lambda>i b. ta_set b (Some (int (ptr + i))) (Some (- 1))) [0..<size] (trieBuffer r1)
      in (ptr, r1\<lparr>trieBuffer := buf, trieFreePtr := ptr + size\<rparr>))"

text \<open>One iteration of the trie walk shared by \<open>register\<close> and \<open>_upgradeDegree\<close>: follow the
  child slot of \<open>val\<close>, creating the child when the slot holds \<open>-1\<close>.\<close>

definition trieStep :: "jsnum \<Rightarrow> jsnum \<times> repo \<Rightarrow> jsnum \<times> repo" where
  "trieStep val s =
     (case s of (currNodePtr, r) \<Rightarrow>
        (let childSlotIdx = jadd (jadd currNodePtr (Some 1)) val;
             nextNodePtr = ta_get (trieBuffer r) childSlotIdx
         in if nextNodePtr = Some (- 1)
            then (case allocateNode r of (p, r') \<Rightarrow>
                    (Some (int p),
                     r'\<lparr>trieBuffer := ta_set (trieBuffer r') childSlotIdx (Some (int p))\<rparr>))
            else (nextNodePtr, r)))"

definition expandPermCapacity :: "repo \<Rightarrow> repo" where
  "expandPermCapacity r =
     (let cap = permCapacity r * 2;
          newBuf = replicate (cap * globalDegree r) 0;
          old = permBuffer r
      in r\<lparr>permCapacity := cap,
            permBuffer := take (length newBuf) old @ drop (length old) newBuf\<rparr>)"

definition writeToPermBuffer :: "repo \<Rightarrow> nat \<Rightarrow> int list \<Rightarrow> nat \<Rightarrow> repo" where
  "writeToPermBuffer r ident inputArr validLen =
     (let n = globalDegree r;
          offset = ident * n;
          b1 = fold (\<lambda>i b. ta_set b (Some (int (offset + i))) (Some (inputArr ! i)))
                 [0..<validLen] (permBuffer r);
          b2 = fold (\<lambda>i b. ta_set b (Some (int (offset + i))) (Some (int i)))
                 [validLen..<n] b1
      in r\<lparr>permBuffer := b2\<rparr>)"

definition migratePerm :: "int list \<Rightarrow> nat \<Rightarrow> nat \<Rightarrow> nat \<Rightarrow> int list \<Rightarrow> int list" where
  "migratePerm oldPermBuffer oldDegree newDegree i buf =
     (let oldStart = i * oldDegree;
          newStart = i * newDegree;
          b1 = fold (\<lambda>k b. ta_set b (Some (int (newStart + k)))
                               (ta_get oldPermBuffer (Some (int (oldStart + k)))))
                 [0..<oldDegree] buf
      in fold (\<lambda>k b. ta_set b (Some (int (newStart + k))) (Some (int k)))
           [oldDegree..<newDegree] b1)"

definition reinsertPerm :: "nat \<Rightarrow> nat \<Rightarrow> repo \<Rightarrow> repo" where
  "reinsertPerm newDegree ident r =
     (let permOffset = ident * newDegree in
      case fold (\<lambda>i s. trieStep (ta_get (permBuffer (snd s)) (Some (int (permOffset + i)))) s)
             [0..<newDegree] (Some 0, r)
      of (currNodePtr, r') \<Rightarrow>
        r'\<lparr>trieBuffer := ta_set (trieBuffer r') currNodePtr (Some (int ident))\<rparr>)"

definition upgradeDegree :: "repo \<Rightarrow> nat \<Rightarrow> repo" where
  "upgradeDegree r newDegree =
     (let oldDegree = globalDegree r;
          oldPermBuffer = permBuffer r;
          totalPerms = count r;
          r1 = r\<lparr>globalDegree := newDegree, trieNodeSize := newDegree + 1\<rparr>;
          r2 = r1\<lparr>permBuffer :=
                   fold (migratePerm oldPermBuffer oldDegree newDegree) [0..<totalPerms]
                     (replicate (permCapacity r1 * newDegree) 0)\<rparr>;
          r3 = snd (allocateNode (r2\<lparr>trieFreePtr := 0\<rparr>))
      in fold (reinsertPerm newDegree) [0..<totalPerms] r3)"

definition register :: "repo \<Rightarrow> int list \<Rightarrow> jsnum \<times> repo" where
  "register r rawPerm =
     (let inputLen = length rawPerm;
          r1 = (if inputLen > globalDegree r then upgradeDegree r inputLen else r);
          r2 = (if count r1 \<ge> permCapacity r1 then expandPermCapacity r1 else r1);
          n = globalDegree r2
      in case fold (\<lambda>i s. trieStep (Some (if i < inputLen then rawPerm ! i else int i)) s)
                [0..<n] (Some 0, r2)
         of (currNodePtr, r3) \<Rightarrow>
           (let ident = ta_get (trieBuffer r3) currNodePtr
            in if ident = Some (- 1)
               then (let newId = count r3;
                         r4 = r3\<lparr>count := newId + 1,
                                 trieBuffer := ta_set (trieBuffer r3) currNodePtr (Some (int newId))\<rparr>
                     in (Some (int newId), writeToPermBuffer r4 newId rawPerm inputLen))
               else (ident, r3)))"

definition new_repo :: "nat \<Rightarrow> nat \<Rightarrow> error + repo" where
  "new_repo initialDegree initialPermCapacity =
     (let r0 = \<lparr>globalDegree = initialDegree, count = 0, permCapacity = initialPermCapacity,
                permBuffer = replicate (initialPermCapacity * initialDegree) 0,
                trieNodeSize = initialDegree + 1,
                trieBuffer = replicate INITIAL_TRIE_SLOTS 0,
                trieFreePtr = 0\<rparr>;
          r1 = snd (allocateNode r0)
      in case register r1 [] of (ident, r2) \<Rightarrow>
           if ident \<noteq> Some 0 then Inl IdentityNotZero else Inr r2)"

definition get :: "repo \<Rightarrow> nat \<Rightarrow> int list" where
  "get r ident = take (globalDegree r) (drop (ident * globalDegree r) (permBuffer r))"

definition inverse :: "repo \<Rightarrow> jsnum \<Rightarrow> jsnum \<times> repo" where
  "inverse r ident =
     (if ident = Some 0 then (Some 0, r)
      else (let N = globalDegree r;
                buf = permBuffer r;
                off = jmul ident (Some (int N));
                res = fold (\<lambda>k a. ta_set a (ta_get buf (jadd off (Some (int k)))) (Some (int k)))
                        [0..<N] (replicate N 0)
            in register r res))"

definition multiply :: "repo \<Rightarrow> jsnum \<Rightarrow> jsnum \<Rightarrow> jsnum \<times> repo" where
  "multiply r idA idB =
     (if idA = Some 0 then (idB, r)
      else if idB = Some 0 then (idA, r)
      else (let N = globalDegree r;
                buf = permBuffer r;
                offA = jmul idA (Some (int N));
                offB = jmul idB (Some (int N));
                res = fold (\<lambda>k a. ta_set a (Some (int k))
                                     (ta_get buf (jadd offA (ta_get buf (jadd offB (Some (int k)))))))
                        [0..<N] (replicate N 0)
            in register r res))"

section \<open>Sorted integer sets\<close>

fun unionMerge :: "int list \<Rightarrow> int list \<Rightarrow> int list" where
  "unionMerge [] bs = bs"
| "unionMerge (a # as) [] = a # as"
| "unionMerge (a # as) (b # bs) =
     (if a < b then a # unionMerge as (b # bs)
      else if a > b then b # unionMerge (a # as) bs
      else a # unionMerge as bs)"

definition IntSetUtils_union :: "int list \<Rightarrow> int list \<Rightarrow> int list" where
  "IntSetUtils_union arrA arrB =
     (if length arrA = 0 then arrB else if length arrB = 0 then arrA else unionMerge arrA arrB)"

definition uniqueStep :: "nat \<Rightarrow> int list \<times> nat \<Rightarrow> int list \<times> nat" where
  "uniqueStep i s =
     (case s of (rawArr, k) \<Rightarrow>
        if i = 0 \<or> rawArr ! i \<noteq> rawArr ! (i - 1) then (rawArr[k := rawArr ! i], k + 1)
        else (rawArr, k))"

definition sortAndUnique :: "int list \<Rightarrow> int list" where
  "sortAndUnique rawArr =
     (if length rawArr \<le> 1 then rawArr
      else (let sorted = sort rawArr
            in case fold uniqueStep [0..<length sorted] (sorted, 0) of
                 (arr, k) \<Rightarrow> take k arr))"

section \<open>Permutation sets\<close>

record permset =
  ids :: "int list"
  isGroup :: bool

text \<open>The constructor \<open>new PermutationSet(ids, isTrustedSortedUnique, isGroup)\<close>.\<close>

definition PermutationSet :: "int list \<Rightarrow> bool \<Rightarrow> bool \<Rightarrow> permset" where
  "PermutationSet idl isTrustedSortedUnique isGrp =
     \<lparr>ids = (if isTrustedSortedUnique then idl else sortAndUnique idl), isGroup = isGrp\<rparr>"

abbreviation size_of :: "permset \<Rightarrow> nat" where
  "size_of A \<equiv> length (ids A)"

text \<open>The module state of the engine: the process-wide repository and the shared buffer for
  composition results.\<close>

record heap =
  globalRepo :: repo
  tempCompositionBuffer :: "int list"

definition ensureTempBuffer :: "nat \<Rightarrow> heap \<Rightarrow> heap" where
  "ensureTempBuffer requiredSize h =
     (if length (tempCompositionBuffer h) < requiredSize
      then h\<lparr>tempCompositionBuffer :=
               replicate (max requiredSize (length (tempCompositionBuffer h) * 2)) 0\<rparr>
      else h)"

text \<open>
  \<open>PermutationSet.multiply\<close> and \<open>PermutationSet.inverse\<close> start with
  \<open>const permBuffer = repo.permBuffer\<close>: they keep a reference to the array, not a copy. As long
  as \<open>register\<close> writes into that same array, the loops read what earlier iterations of the same
  call have written. \<open>register\<close> assigns a new array to \<open>this.permBuffer\<close> exactly when it calls
  \<open>_upgradeDegree\<close> or \<open>_expandPermCapacity\<close>; from then on the reference held by the loop points
  to the old array, which is no longer written.

  The reference is the value \<open>None\<close> while it still is the repository's array, and \<open>Some old\<close>
  with the contents of the abandoned array afterwards.
\<close>

definition replacesPermBuffer :: "repo \<Rightarrow> int list \<Rightarrow> bool" where
  "replacesPermBuffer r rawPerm = (length rawPerm > globalDegree r \<or> count r \<ge> permCapacity r)"

definition capturedContents :: "heap \<Rightarrow> int list option \<Rightarrow> int list" where
  "capturedContents h detached =
     (case detached of None \<Rightarrow> permBuffer (globalRepo h) | Some old \<Rightarrow> old)"

definition afterRegister :: "heap \<Rightarrow> int list \<Rightarrow> int list option \<Rightarrow> int list option" where
  "afterRegister h rawPerm detached =
     (case detached of
        Some old \<Rightarrow> Some old
      | None \<Rightarrow> if replacesPermBuffer (globalRepo h) rawPerm
                then Some (permBuffer (globalRepo h)) else None)"

text \<open>The innermost loop of \<open>PermutationSet.multiply\<close>: \<open>tempBuf[k] = A[B[k]]\<close>, read through
  the reference \<open>permBuffer\<close>.\<close>

definition composeInto :: "int list \<Rightarrow> nat \<Rightarrow> int \<Rightarrow> int \<Rightarrow> int list \<Rightarrow> int list" where
  "composeInto pbuf N offsetA offsetB tempBuf =
     fold (\<lambda>k t. ta_set t (Some (int k))
                    (ta_get pbuf (jadd (Some offsetA) (ta_get pbuf (Some (offsetB + int k))))))
       [0..<N] tempBuf"

definition multiplyPair :: "nat \<Rightarrow> int \<Rightarrow> int \<Rightarrow> heap \<times> int list option \<times> int list \<Rightarrow> heap \<times> int list option \<times> int list" where
  "multiplyPair N idA idB s =
     (case s of (h, detached, resultIds) \<Rightarrow>
        (let t = composeInto (capturedContents h detached) N (idA * int N) (idB * int N)
                   (tempCompositionBuffer h)
         in case register (globalRepo h) (take N t) of
              (ident, r') \<Rightarrow>
                (h\<lparr>globalRepo := r', tempCompositionBuffer := t\<rparr>,
                 afterRegister h (take N t) detached,
                 resultIds @ [toInt32 ident])))"

definition PermutationSet_multiply :: "heap \<Rightarrow> permset \<Rightarrow> permset \<Rightarrow> permset \<times> heap" where
  "PermutationSet_multiply h A B =
     (let sizeA = size_of A; sizeB = size_of B
      in if sizeA = 0 \<or> sizeB = 0 then (PermutationSet [] True False, h)
         else (let N = globalDegree (globalRepo h);
                   h1 = ensureTempBuffer N h
               in case (if sizeA \<le> sizeB
                        then fold (\<lambda>idA s. fold (\<lambda>idB. multiplyPair N idA idB) (ids B) s)
                               (ids A) (h1, None, [])
                        else fold (\<lambda>idB s. fold (\<lambda>idA. multiplyPair N idA idB) (ids A) s)
                               (ids B) (h1, None, []))
                  of (h2, detached, resultIds) \<Rightarrow> (PermutationSet resultIds False False, h2)))"

definition invertInto :: "int list \<Rightarrow> nat \<Rightarrow> int \<Rightarrow> int list \<Rightarrow> int list" where
  "invertInto pbuf N offset tempBuf =
     fold (\<lambda>k t. ta_set t (ta_get pbuf (Some (offset + int k))) (Some (int k))) [0..<N] tempBuf"

definition inverseOne :: "nat \<Rightarrow> int \<Rightarrow> heap \<times> int list option \<times> int list \<Rightarrow> heap \<times> int list option \<times> int list" where
  "inverseOne N ident s =
     (case s of (h, detached, resultIds) \<Rightarrow>
        (let t = invertInto (capturedContents h detached) N (ident * int N)
                   (tempCompositionBuffer h)
         in case register (globalRepo h) (take N t) of
              (res, r') \<Rightarrow>
                (h\<lparr>globalRepo := r', tempCompositionBuffer := t\<rparr>,
                 afterRegister h (take N t) detached,
                 resultIds @ [toInt32 res])))"

definition PermutationSet_inverse :: "heap \<Rightarrow> permset \<Rightarrow> permset \<times> heap" where
  "PermutationSet_inverse h A =
     (if size_of A = 0 then (PermutationSet [] True (isGroup A), h)
      else (let N = globalDegree (globalRepo h);
                h1 = ensureTempBuffer N h
            in case fold (inverseOne N) (ids A) (h1, None, []) of
                 (h2, detached, resultIds) \<Rightarrow> (PermutationSet resultIds False (isGroup A), h2)))"

definition PermutationSet_union :: "permset \<Rightarrow> permset \<Rightarrow> permset" where
  "PermutationSet_union A B = PermutationSet (IntSetUtils_union (ids A) (ids B)) True False"

definition PermutationSet_identity :: permset where
  "PermutationSet_identity = PermutationSet [0] True True"

subsection \<open>Orbits\<close>






subsection \<open>Right cosets\<close>



section \<open>The stabiliser chain as a parameter\<close>

text \<open>
  The class \<open>SchreierSimsAlgorithm\<close> is imported from \<open>schreier-sims.js\<close>. The functions below
  use it only through the members collected in this record, which is a parameter of each of
  them: \<open>SchreierSimsAlgorithm.compute\<close>, the fields \<open>order\<close> and \<open>generators\<close>, and the
  methods \<open>contains\<close> and \<open>getGeneratorsAsPermutationSet\<close>. A call may register permutations,
  so the methods return the heap.
\<close>

record 'ssa ssa_ops =
  ssa_compute :: "heap \<Rightarrow> permset \<Rightarrow> 'ssa \<times> heap"
  ssa_order :: "'ssa \<Rightarrow> nat"
  ssa_generators :: "'ssa \<Rightarrow> int list list"
  ssa_contains :: "'ssa \<Rightarrow> heap \<Rightarrow> jsnum \<Rightarrow> bool \<times> heap"
  ssa_getGeneratorsAsPermutationSet :: "'ssa \<Rightarrow> heap \<Rightarrow> permset \<times> heap"

datatype 'ssa group_arg = ArgArray "int list" | ArgSSA 'ssa | ArgSet permset | ArgOther

section \<open>Generator closure\<close>

partial_function (option) closureLoop :: "permset \<Rightarrow> heap \<Rightarrow> permset \<Rightarrow> nat \<Rightarrow> (permset \<times> heap) option" where
  "closureLoop generators h grp lastSize =
     (if size_of grp \<noteq> lastSize
      then (case PermutationSet_multiply h grp generators of
              (nextLevel, h') \<Rightarrow>
                closureLoop generators h' (PermutationSet_union grp nextLevel) (size_of grp))
      else Some (grp, h))"

declare closureLoop.simps [code]

definition generateGroupSet :: "heap \<Rightarrow> permset \<Rightarrow> (permset \<times> heap) option" where
  "generateGroupSet h generators =
     (if isGroup generators then Some (generators, h)
      else (case PermutationSet_inverse h generators of
              (invSet, h1) \<Rightarrow>
                (case closureLoop generators h1
                        (PermutationSet_union (PermutationSet_union generators invSet)
                           PermutationSet_identity) 0
                 of None \<Rightarrow> None
                  | Some (grp, h2) \<Rightarrow> Some (grp\<lparr>isGroup := True\<rparr>, h2))))"

definition generateGroup :: "'ssa ssa_ops \<Rightarrow> heap \<Rightarrow> 'ssa group_arg \<Rightarrow> (error + permset \<times> heap) option" where
  "generateGroup ops h generators =
     (case generators of
        ArgArray a \<Rightarrow> map_option Inr (generateGroupSet h (PermutationSet a False False))
      | ArgSSA s \<Rightarrow>
          (case ssa_getGeneratorsAsPermutationSet ops s h of
             (g, h') \<Rightarrow> map_option Inr (generateGroupSet h' g))
      | ArgSet g \<Rightarrow> map_option Inr (generateGroupSet h g)
      | ArgOther \<Rightarrow> Some (Inl UnknownGeneratorsType))"

section \<open>Quotient structure\<close>

definition ensureSSA :: "'ssa ssa_ops \<Rightarrow> heap \<Rightarrow> 'ssa group_arg \<Rightarrow> error + 'ssa \<times> heap" where
  "ensureSSA ops h input =
     (case input of
        ArgSSA s \<Rightarrow> Inr (s, h)
      | ArgSet p \<Rightarrow> Inr (ssa_compute ops h p)
      | ArgArray a \<Rightarrow> Inl InvalidInput
      | ArgOther \<Rightarrow> Inl InvalidInput)"

definition ensureGensSSA :: "'ssa ssa_ops \<Rightarrow> 'ssa \<Rightarrow> permset" where
  "ensureGensSSA ops s = PermutationSet (concat (ssa_generators ops s)) False False"

text \<open>The scan \<open>for (i = 0; i < ...; i++)\<close> that looks for the coset of \<open>candidate\<close>: the first
  index \<open>i\<close> whose representative satisfies \<open>candidate * existing^-1 \<in> N\<close>.\<close>

fun findCoset :: "'ssa ssa_ops \<Rightarrow> 'ssa \<Rightarrow> jsnum \<Rightarrow> jsnum list \<Rightarrow> nat \<Rightarrow> heap \<Rightarrow> nat option \<times> heap" where
  "findCoset ops ssaN candidate [] i h = (None, h)"
| "findCoset ops ssaN candidate (existing # rest) i h =
     (case inverse (globalRepo h) existing of
        (exInv, r1) \<Rightarrow>
          (case multiply r1 candidate exInv of
             (check, r2) \<Rightarrow>
               (case ssa_contains ops ssaN (h\<lparr>globalRepo := r2\<rparr>) check of
                  (found, h') \<Rightarrow>
                    if found then (Some i, h')
                    else findCoset ops ssaN candidate rest (i + 1) h')))"

fun extendByGens :: "'ssa ssa_ops \<Rightarrow> 'ssa \<Rightarrow> nat \<Rightarrow> jsnum \<Rightarrow> int list \<Rightarrow> heap \<times> jsnum list \<Rightarrow> error + heap \<times> jsnum list" where
  "extendByGens ops ssaN k currRep [] s = Inr s"
| "extendByGens ops ssaN k currRep (gen # gens) s =
     (case s of (h, cosetReps) \<Rightarrow>
        (case multiply (globalRepo h) currRep (Some gen) of
           (candidate, r1) \<Rightarrow>
             (case findCoset ops ssaN candidate cosetReps 0 (h\<lparr>globalRepo := r1\<rparr>) of
                (Some i, h') \<Rightarrow> extendByGens ops ssaN k currRep gens (h', cosetReps)
              | (None, h') \<Rightarrow>
                  if length cosetReps \<ge> k then Inl CosetEnumerationOverflow
                  else extendByGens ops ssaN k currRep gens (h', cosetReps @ [candidate]))))"

lemma extendByGens_length:
  "extendByGens ops ssaN k currRep gens (h, reps) = Inr (h', reps') \<Longrightarrow>
     length reps \<le> length reps' \<and> length reps' \<le> max k (length reps)"
proof (induction gens arbitrary: h reps)
  case Nil
  then show ?case by simp
next
  case (Cons gen gens)
  obtain candidate r1 where m: "multiply (globalRepo h) currRep (Some gen) = (candidate, r1)"
    by (cases "multiply (globalRepo h) currRep (Some gen)")
  obtain fi h1 where f: "findCoset ops ssaN candidate reps 0 (h\<lparr>globalRepo := r1\<rparr>) = (fi, h1)"
    by (cases "findCoset ops ssaN candidate reps 0 (h\<lparr>globalRepo := r1\<rparr>)")
  show ?case
  proof (cases fi)
    case None
    with Cons.prems m f have lt: "length reps < k"
      and rec: "extendByGens ops ssaN k currRep gens (h1, reps @ [candidate]) = Inr (h', reps')"
      by (auto split: if_splits)
    from Cons.IH[OF rec] lt show ?thesis by auto
  next
    case (Some i)
    with Cons.prems m f have "extendByGens ops ssaN k currRep gens (h1, reps) = Inr (h', reps')"
      by simp
    from Cons.IH[OF this] show ?thesis .
  qed
qed

function cosetBFS :: "'ssa ssa_ops \<Rightarrow> 'ssa \<Rightarrow> nat \<Rightarrow> int list \<Rightarrow> heap \<Rightarrow> jsnum list \<Rightarrow> nat \<Rightarrow> error + heap \<times> jsnum list" where
  "cosetBFS ops ssaN k gGens h cosetReps head =
     (if head < length cosetReps
      then (case extendByGens ops ssaN k (cosetReps ! head) gGens (h, cosetReps) of
              Inl e \<Rightarrow> Inl e
            | Inr (h', cosetReps') \<Rightarrow> cosetBFS ops ssaN k gGens h' cosetReps' (head + 1))
      else Inr (h, cosetReps))"
  by pat_completeness auto
termination
proof (relation "measure (\<lambda>(ops, ssaN, k, gGens, h, cosetReps, head).
                     max k (length cosetReps) - head)", goal_cases)
  case 1
  show ?case by simp
next
  case (2 ops ssaN k gGens h cosetReps head b x y)
  then have "extendByGens ops ssaN k (cosetReps ! head) gGens (h, cosetReps) = Inr (x, y)"
    by simp
  from extendByGens_length[OF this] 2(1) show ?case by auto
qed

declare cosetBFS.simps [simp del]

definition repAt :: "jsnum list \<Rightarrow> nat \<Rightarrow> jsnum" where
  "repAt cosetReps i = (if i < length cosetReps then cosetReps ! i else None)"

fun quotientRow :: "'ssa ssa_ops \<Rightarrow> 'ssa \<Rightarrow> nat \<Rightarrow> jsnum list \<Rightarrow> int \<Rightarrow> nat list \<Rightarrow> heap \<times> int list \<Rightarrow> error + heap \<times> int list" where
  "quotientRow ops ssaN k cosetReps gen [] s = Inr s"
| "quotientRow ops ssaN k cosetReps gen (c # cs) s =
     (case s of (h, tempArr) \<Rightarrow>
        (case multiply (globalRepo h) (repAt cosetReps c) (Some gen) of
           (result, r1) \<Rightarrow>
             (case findCoset ops ssaN result (map (repAt cosetReps) [0..<k]) 0 (h\<lparr>globalRepo := r1\<rparr>) of
                (None, h') \<Rightarrow> Inl CosetClosureError
              | (Some targetIdx, h') \<Rightarrow>
                  quotientRow ops ssaN k cosetReps gen cs
                    (h', ta_set tempArr (Some (int c)) (Some (int targetIdx))))))"

fun quotientGens :: "'ssa ssa_ops \<Rightarrow> 'ssa \<Rightarrow> nat \<Rightarrow> jsnum list \<Rightarrow> int list \<Rightarrow> heap \<times> int list \<times> jsnum list \<Rightarrow> error + heap \<times> int list \<times> jsnum list" where
  "quotientGens ops ssaN k cosetReps [] s = Inr s"
| "quotientGens ops ssaN k cosetReps (gen # gens) s =
     (case s of (h, tempArr, quotientGenIds) \<Rightarrow>
        (case quotientRow ops ssaN k cosetReps gen [0..<k] (h, tempArr) of
           Inl e \<Rightarrow> Inl e
         | Inr (h1, tempArr') \<Rightarrow>
             (case register (globalRepo h1) tempArr' of
                (ident, r2) \<Rightarrow>
                  quotientGens ops ssaN k cosetReps gens
                    (h1\<lparr>globalRepo := r2\<rparr>, tempArr', quotientGenIds @ [ident]))))"

record quotientGroupMap =
  qm_group :: permset
  qm_representatives :: "int list"
  qm_size :: nat

definition getQuotientStructure :: "'ssa ssa_ops \<Rightarrow> heap \<Rightarrow> 'ssa group_arg \<Rightarrow> 'ssa group_arg \<Rightarrow> int \<Rightarrow> (error + quotientGroupMap \<times> heap) option" where
  "getQuotientStructure ops h groupG normalN maxIndex =
     (case ensureSSA ops h groupG of
        Inl e \<Rightarrow> Some (Inl e)
      | Inr (ssaG, h1) \<Rightarrow>
     (case ensureSSA ops h1 normalN of
        Inl e \<Rightarrow> Some (Inl e)
      | Inr (ssaN, h2) \<Rightarrow>
     if ssa_order ops ssaN = 0 then Some (Inl BigIntDivisionByZero)
     else if ssa_order ops ssaG mod ssa_order ops ssaN \<noteq> 0 then Some (Inl NMustDivideG)
     else (let indexBig = ssa_order ops ssaG div ssa_order ops ssaN
           in if int indexBig > maxIndex then Some (Inl (QuotientIndexTooLarge indexBig))
              else (let k = indexBig;
                        gGens = ids (ensureGensSSA ops ssaG)
                    in case cosetBFS ops ssaN k gGens h2 [Some 0] 0 of
                         Inl e \<Rightarrow> Some (Inl e)
                       | Inr (h3, cosetReps) \<Rightarrow>
                     (case quotientGens ops ssaN k cosetReps gGens (h3, replicate k 0, []) of
                         Inl e \<Rightarrow> Some (Inl e)
                       | Inr (h4, tempArr, quotientGenIds) \<Rightarrow>
                     (let genSet = PermutationSet (map toInt32 quotientGenIds) False False
                      in case generateGroup ops h4 (ArgSet genSet) of
                           None \<Rightarrow> None
                         | Some (Inl e) \<Rightarrow> Some (Inl e)
                         | Some (Inr (qGroup, h5)) \<Rightarrow>
                             Some (Inr (\<lparr>qm_group = qGroup,
                                         qm_representatives = map toInt32 cosetReps,
                                         qm_size = indexBig\<rparr>, h5))))))))"

section \<open>Cycle notation\<close>

definition digit_char :: "nat \<Rightarrow> char" where
  "digit_char d = char_of (48 + d)"

definition digit_val :: "char \<Rightarrow> nat option" where
  "digit_val c = (let n = (of_char c :: nat) in if 48 \<le> n \<and> n \<le> 57 then Some (n - 48) else None)"

function show_nat :: "nat \<Rightarrow> string" where
  "show_nat n = (if n < 10 then [digit_char n] else show_nat (n div 10) @ [digit_char (n mod 10)])"
  by pat_completeness auto
termination
  by (relation "measure id") auto

declare show_nat.simps [simp del]

text \<open>The string that \<open>Array.prototype.join\<close> produces for an integer element.\<close>

definition show_int :: "int \<Rightarrow> string" where
  "show_int i = (if i < 0 then CHR ''-'' # show_nat (nat (- i)) else show_nat (nat i))"

fun join_with :: "string \<Rightarrow> string list \<Rightarrow> string" where
  "join_with sep [] = []"
| "join_with sep [x] = x"
| "join_with sep (x # y # ys) = x @ sep @ join_with sep (y # ys)"

lemma count_list_zero_update:
  "k < length v \<Longrightarrow> v ! k = (0::int) \<Longrightarrow> count_list (v[k := 1]) 0 + 1 = count_list v 0"
proof (induction v arbitrary: k)
  case Nil
  then show ?case by simp
next
  case (Cons x v)
  then show ?case by (cases k) auto
qed

function traceCycle :: "int list \<Rightarrow> int list \<Rightarrow> jsnum \<Rightarrow> int list \<Rightarrow> int list \<times> int list" where
  "traceCycle permArr visited cur cycle =
     (if ta_get visited cur = Some 0
      then traceCycle permArr (ta_set visited cur (Some 1)) (ta_get permArr cur)
             (cycle @ [toInt32 cur + 1])
      else (visited, cycle))"
  by pat_completeness auto
termination
proof (relation "measure (\<lambda>(permArr, visited, cur, cycle). count_list visited 0)")
  show "wf (measure (\<lambda>(permArr, visited, cur, cycle). count_list visited 0))" by simp
next
  fix permArr visited :: "int list" and cur :: jsnum and cycle :: "int list"
  assume a: "ta_get visited cur = Some 0"
  then obtain k where k: "cur = Some k" "0 \<le> k" "k < int (length visited)" "visited ! nat k = 0"
    by (auto simp: ta_get_def split: option.splits if_splits)
  then have "count_list (visited[nat k := 1]) 0 + 1 = count_list visited 0"
    by (intro count_list_zero_update) auto
  then show "((permArr, ta_set visited cur (Some 1), ta_get permArr cur, cycle @ [toInt32 cur + 1]),
              (permArr, visited, cur, cycle))
             \<in> measure (\<lambda>(permArr, visited, cur, cycle). count_list visited 0)"
    using k by (simp add: ta_set_def toInt32_def)
qed

declare traceCycle.simps [simp del]

definition cycleStep :: "int list \<Rightarrow> nat \<Rightarrow> int list \<times> string list \<Rightarrow> int list \<times> string list" where
  "cycleStep permArr i s =
     (case s of (visited, cycles) \<Rightarrow>
        if ta_get visited (Some (int i)) = Some 0
        then (if ta_get permArr (Some (int i)) = Some (int i)
              then (ta_set visited (Some (int i)) (Some 1), cycles)
              else (case traceCycle permArr visited (Some (int i)) [] of
                      (visited', cycle) \<Rightarrow>
                        (visited',
                         if length cycle > 1
                         then cycles @ [''('' @ join_with '' '' (map show_int cycle) @ '')'']
                         else cycles)))
        else (visited, cycles))"

definition decomposeToCycles :: "int list \<Rightarrow> string" where
  "decomposeToCycles permArr =
     (let n = length permArr
      in case fold (cycleStep permArr) [0..<n] (replicate n 0, []) of
           (visited, cycles) \<Rightarrow> (if concat cycles = [] then ''()'' else concat cycles))"

definition getAsCycles :: "repo \<Rightarrow> nat \<Rightarrow> string" where
  "getAsCycles r ident = decomposeToCycles (get r ident)"

text \<open>\<open>str.match(/\(([^)]+)\)/g) || []\<close>: the leftmost, non-overlapping substrings that consist
  of \<open>(\<close>, a non-empty run of characters other than \<open>)\<close>, and \<open>)\<close>.\<close>

function matchCycles :: "string \<Rightarrow> string list" where
  "matchCycles [] = []"
| "matchCycles (c # cs) =
     (if c = CHR ''(''
         \<and> takeWhile (\<lambda>x. x \<noteq> CHR '')'') cs \<noteq> [] \<and> dropWhile (\<lambda>x. x \<noteq> CHR '')'') cs \<noteq> []
      then (c # takeWhile (\<lambda>x. x \<noteq> CHR '')'') cs @ '')'')
             # matchCycles (tl (dropWhile (\<lambda>x. x \<noteq> CHR '')'') cs))
      else matchCycles cs)"
  by pat_completeness auto
termination
proof (relation "measure length", goal_cases)
  case 1
  then show ?case by simp
next
  case (2 c cs)
  have "length (dropWhile (\<lambda>x. x \<noteq> CHR '')'') cs) \<le> length cs"
    by (rule length_dropWhile_le)
  then have "length (tl (dropWhile (\<lambda>x. x \<noteq> CHR '')'') cs)) \<le> length cs"
    by simp
  then show ?case by simp
next
  case (3 c cs)
  then show ?case by simp
qed

text \<open>White space of \<open>\s\<close> and \<open>trim\<close> among the 8-bit characters.\<close>

definition is_space :: "char \<Rightarrow> bool" where
  "is_space c = (c \<in> {CHR 0x09, CHR 0x0A, CHR 0x0B, CHR 0x0C, CHR 0x0D, CHR 0x20, CHR 0xA0})"

definition is_sep :: "char \<Rightarrow> bool" where
  "is_sep c = (is_space c \<or> c = CHR '','')"

definition trim :: "string \<Rightarrow> string" where
  "trim s = rev (dropWhile is_space (rev (dropWhile is_space s)))"

text \<open>\<open>s.split(/[\s,]+/)\<close>: the pieces between maximal runs of separators, with an empty first
  or last piece when the string starts or ends with a separator.\<close>

fun splitSep :: "string \<Rightarrow> string \<Rightarrow> bool \<Rightarrow> string list" where
  "splitSep [] acc inSep = [acc]"
| "splitSep (c # cs) acc inSep =
     (if is_sep c then (if inSep then splitSep cs acc True else acc # splitSep cs [] True)
      else splitSep cs (acc @ [c]) False)"

definition digits_val :: "string \<Rightarrow> jsnum" where
  "digits_val s =
     fold (\<lambda>c acc. case acc of None \<Rightarrow> None
                    | Some a \<Rightarrow> (case digit_val c of None \<Rightarrow> None
                                  | Some d \<Rightarrow> Some (a * 10 + int d)))
       s (Some 0)"

text \<open>\<open>Number(token)\<close> on a token without white space: decimal digits with an optional sign
  give their value, the empty token gives 0, and a token that is no numeric literal gives
  \<open>NaN\<close>. The other numeric literals of JavaScript (fraction, exponent, radix prefix,
  \<open>Infinity\<close>) would need non-integer values and are mapped to \<open>NaN\<close> as well.\<close>

definition js_Number :: "string \<Rightarrow> jsnum" where
  "js_Number s =
     (case s of
        [] \<Rightarrow> Some 0
      | c # cs \<Rightarrow>
          if c = CHR ''-'' then (if cs = [] then None else map_option uminus (digits_val cs))
          else if c = CHR ''+'' then (if cs = [] then None else digits_val cs)
          else digits_val s)"

definition parseCycleString :: "string \<Rightarrow> jsnum list" where
  "parseCycleString s =
     map js_Number
       (splitSep (trim (filter (\<lambda>c. c \<noteq> CHR ''('' \<and> c \<noteq> CHR '')'') s)) [] False)"

definition applyCycle :: "nat \<Rightarrow> int list \<Rightarrow> int list \<Rightarrow> int list" where
  "applyCycle degree cycle perm =
     (let len = length cycle
      in if len < 2 then perm
         else fold (\<lambda>i p. (let current = cycle ! i - 1;
                                next = cycle ! ((i + 1) mod len) - 1
                            in if current \<ge> int degree \<or> next \<ge> int degree then p
                               else ta_set p (Some current) (Some next)))
                [0..<len] perm)"

text \<open>\<open>parseCycles(str, degree = 0)\<close>; a call without the second argument is \<open>degree = 0\<close>.\<close>

definition parseCycles :: "string \<Rightarrow> nat \<Rightarrow> error + int list" where
  "parseCycles str degree =
     (let cycles = map parseCycleString (matchCycles str)
      in if \<exists>cycle \<in> set cycles. \<exists>e \<in> set cycle. (case e of None \<Rightarrow> True | Some v \<Rightarrow> v \<le> 0)
         then Inl (InvalidCycleNotation str)
         else (let nums = map (map toInt32) cycles;
                   degree' = (if degree = 0
                              then (let maxVal = (if length nums > 0 then Max (set (concat nums)) else 0)
                                    in nat (max maxVal 0))
                              else degree)
               in Inr (fold (applyCycle degree') nums (map int [0..<degree']))))"

section \<open>Invariants of the repository\<close>

text \<open>
  The trie arena is well formed when its allocated nodes correspond one to one to the prefixes
  of the stored images: \<open>pathOf k\<close> is the sequence of values that leads from the root to
  node \<open>k\<close>. The lemmas of this section show that \<open>register\<close> and \<open>_upgradeDegree\<close>
  keep the arena well formed, and give their effect on the stored images.
\<close>

lemma jadd_Some [simp]: "jadd (Some a) (Some b) = Some (a + b)" "jadd None x = None" "jadd x None = None"
  by (auto simp: jadd_def split: option.splits)

lemma jmul_Some [simp]: "jmul (Some a) (Some b) = Some (a * b)" "jmul None x = None" "jmul x None = None"
  by (auto simp: jmul_def split: option.splits)

lemma toInt32_simps [simp]: "toInt32 (Some v) = v" "toInt32 None = 0"
  by (simp_all add: toInt32_def)

lemma ta_get_nat [simp]: "ta_get a (Some (int i)) = (if i < length a then Some (a ! i) else None)"
  by (simp add: ta_get_def)

lemma ta_get_None [simp]: "ta_get a None = None"
  by (simp add: ta_get_def)

lemma ta_set_nat [simp]: "ta_set a (Some (int i)) v = a[i := toInt32 v]"
  by (simp add: ta_set_def list_update_beyond)

lemma ta_get_nat2 [simp]:
  "ta_get a (Some (int i + int j)) = (if i + j < length a then Some (a ! (i + j)) else None)"
  using ta_get_nat[of a "i + j"] by (simp del: ta_get_nat)

lemma ta_set_nat2 [simp]: "ta_set a (Some (int i + int j)) v = a[i + j := toInt32 v]"
  using ta_set_nat[of a "i + j" v] by (simp del: ta_set_nat)

lemma ta_set_None [simp]: "ta_set a None v = a"
  by (simp add: ta_set_def list_update_beyond)

lemma length_ta_set [simp]: "length (ta_set a i v) = length a"
  by (simp add: ta_set_def split: option.splits)

lemma fold_upd_length [simp]:
  "length (fold (\<lambda>i b. b[h i := f i]) xs b) = length b"
  by (induction xs arbitrary: b) simp_all

lemma fold_upd_nth:
  "j < length b \<Longrightarrow>
   fold (\<lambda>i b. b[off + i := f i]) [lo..<hi] b ! j
     = (if off + lo \<le> j \<and> j < off + hi then f (j - off) else b ! j)"
proof (induction hi)
  case 0
  then show ?case by auto
next
  case (Suc hi)
  show ?case
  proof (cases "lo \<le> hi")
    case True
    then have e: "[lo..<Suc hi] = [lo..<hi] @ [hi]" by simp
    let ?b = "fold (\<lambda>i b. b[off + i := f i]) [lo..<hi] b"
    have l: "length ?b = length b" by simp
    have "fold (\<lambda>i b. b[off + i := f i]) [lo..<Suc hi] b ! j = (?b[off + hi := f hi]) ! j"
      unfolding e by simp
    also have "\<dots> = (if off + hi = j then f hi else ?b ! j)"
      using Suc.prems l by (simp add: nth_list_update)
    also have "\<dots> = (if off + lo \<le> j \<and> j < off + Suc hi then f (j - off) else b ! j)"
      using Suc.IH[OF Suc.prems] True by auto
    finally show ?thesis .
  next
    case False
    then show ?thesis by auto
  qed
qed

definition same_store :: "repo \<Rightarrow> repo \<Rightarrow> bool" where
  "same_store r r' \<longleftrightarrow>
     globalDegree r' = globalDegree r \<and> count r' = count r \<and> permCapacity r' = permCapacity r
     \<and> permBuffer r' = permBuffer r \<and> trieNodeSize r' = trieNodeSize r"

lemma same_store_refl [simp]: "same_store r r"
  by (simp add: same_store_def)

lemma same_store_trans: "same_store a b \<Longrightarrow> same_store b c \<Longrightarrow> same_store a c"
  by (simp add: same_store_def)

lemma allocateNode_spec:
  assumes "trieFreePtr r + trieNodeSize r \<le> 2 * length (trieBuffer r)"
  shows "\<exists>r'. allocateNode r = (trieFreePtr r, r') \<and> same_store r r'
           \<and> trieFreePtr r' = trieFreePtr r + trieNodeSize r
           \<and> trieFreePtr r' \<le> length (trieBuffer r')
           \<and> length (trieBuffer r) \<le> length (trieBuffer r')
           \<and> (\<forall>j. j < trieFreePtr r \<and> j < length (trieBuffer r) \<longrightarrow> trieBuffer r' ! j = trieBuffer r ! j)
           \<and> (\<forall>j. trieFreePtr r \<le> j \<and> j < trieFreePtr r + trieNodeSize r \<longrightarrow> trieBuffer r' ! j = - 1)"
proof -
  let ?F = "trieFreePtr r" and ?S = "trieNodeSize r"
  let ?r1 = "if ?F + ?S > length (trieBuffer r) then expandTrieBuffer r else r"
  let ?B1 = "trieBuffer ?r1"
  have r1: "trieFreePtr ?r1 = ?F" "trieNodeSize ?r1 = ?S" "same_store r ?r1"
    by (auto simp: expandTrieBuffer_def same_store_def)
  have len1: "?F + ?S \<le> length ?B1" "length (trieBuffer r) \<le> length ?B1"
    using assms by (auto simp: expandTrieBuffer_def)
  have old1: "\<And>j. j < length (trieBuffer r) \<Longrightarrow> ?B1 ! j = trieBuffer r ! j"
    by (auto simp: expandTrieBuffer_def nth_append)
  let ?B = "fold (\<lambda>i b. ta_set b (Some (int (?F + i))) (Some (- 1))) [0..<?S] ?B1"
  have alloc: "allocateNode r = (?F, ?r1\<lparr>trieBuffer := ?B, trieFreePtr := ?F + ?S\<rparr>)"
    unfolding allocateNode_def Let_def r1 by simp
  have nthB: "\<And>j. j < length ?B1 \<Longrightarrow> ?B ! j = (if ?F \<le> j \<and> j < ?F + ?S then - 1 else ?B1 ! j)"
    using fold_upd_nth[of _ ?B1 ?F "\<lambda>_. - 1" 0 ?S] by simp
  have lenB: "length ?B = length ?B1" by simp
  have p1: "\<forall>j. j < ?F \<and> j < length (trieBuffer r) \<longrightarrow> ?B ! j = trieBuffer r ! j"
  proof (intro allI impI)
    fix j assume j: "j < ?F \<and> j < length (trieBuffer r)"
    then have "j < length ?B1" using len1 by linarith
    from nthB[OF this] j old1[of j] show "?B ! j = trieBuffer r ! j" by simp
  qed
  have p2: "\<forall>j. ?F \<le> j \<and> j < ?F + ?S \<longrightarrow> ?B ! j = - 1"
  proof (intro allI impI)
    fix j assume j: "?F \<le> j \<and> j < ?F + ?S"
    then have "j < length ?B1" using len1 by linarith
    from nthB[OF this] j show "?B ! j = - 1" by simp
  qed
  have p3: "same_store r (?r1\<lparr>trieBuffer := ?B, trieFreePtr := ?F + ?S\<rparr>)"
    using r1 by (simp add: same_store_def)
  show ?thesis
    apply (rule exI[of _ "?r1\<lparr>trieBuffer := ?B, trieFreePtr := ?F + ?S\<rparr>"])
    using alloc p1 p2 p3 len1 lenB by (simp del: fold_upd_length)
qed

definition in_range :: "nat \<Rightarrow> int list \<Rightarrow> bool" where
  "in_range N p \<longleftrightarrow> (\<forall>v \<in> set p. 0 \<le> v \<and> v < int N)"

definition node_slot :: "repo \<Rightarrow> nat \<Rightarrow> int \<Rightarrow> int" where
  "node_slot r k c = trieBuffer r ! (k * trieNodeSize r + 1 + nat c)"

definition trie_struct :: "repo \<Rightarrow> nat \<Rightarrow> (nat \<Rightarrow> int list) \<Rightarrow> bool" where
  "trie_struct r m pathOf \<longleftrightarrow>
     trieNodeSize r = globalDegree r + 1 \<and> trieFreePtr r = m * trieNodeSize r \<and> 0 < m
     \<and> trieFreePtr r \<le> length (trieBuffer r) \<and> trieNodeSize r \<le> length (trieBuffer r)
     \<and> pathOf 0 = [] \<and> inj_on pathOf {..<m}
     \<and> (\<forall>k<m. length (pathOf k) \<le> globalDegree r \<and> in_range (globalDegree r) (pathOf k))
     \<and> (\<forall>k<m. k \<noteq> 0 \<longrightarrow> (\<exists>j<m. \<exists>c. pathOf k = pathOf j @ [c]))
     \<and> (\<forall>k<m. \<forall>c. 0 \<le> c \<and> c < int (globalDegree r) \<longrightarrow>
            (node_slot r k c = - 1 \<and> (\<forall>j<m. pathOf j \<noteq> pathOf k @ [c]))
          \<or> (\<exists>j<m. node_slot r k c = int (j * trieNodeSize r) \<and> pathOf j = pathOf k @ [c]))"


lemma slot_index_unique:
  fixes S :: nat
  assumes "a < S" "b < S" "k0 * S + a = k * S + b"
  shows "k0 = k \<and> a = b"
proof -
  have "(k0 * S + a) div S = k0" "(k * S + b) div S = k" using assms(1,2) by simp_all
  with assms(3) have "k0 = k" by simp
  with assms(3) show ?thesis by simp
qed

lemma trieStep_spec:
  assumes ts: "trie_struct r m pathOf" and k: "k < m"
    and v: "0 \<le> v" "v < int (globalDegree r)"
    and d: "length (pathOf k) < globalDegree r"
  shows "\<exists>k' m' pathOf' r'.
      trieStep (Some v) (Some (int (k * trieNodeSize r)), r) = (Some (int (k' * trieNodeSize r)), r')
      \<and> same_store r r' \<and> trie_struct r' m' pathOf' \<and> k' < m' \<and> pathOf' k' = pathOf k @ [v]
      \<and> m \<le> m' \<and> (\<forall>j<m. pathOf' j = pathOf j)
      \<and> (\<forall>j<m. trieBuffer r' ! (j * trieNodeSize r) = trieBuffer r ! (j * trieNodeSize r))
      \<and> (\<forall>j. m \<le> j \<and> j < m' \<longrightarrow>
             trieBuffer r' ! (j * trieNodeSize r) = - 1 \<and> pathOf' j = pathOf k @ [v])
      \<and> length (trieBuffer r) \<le> length (trieBuffer r')"
proof -
  let ?S = "trieNodeSize r" and ?N = "globalDegree r" and ?F = "trieFreePtr r"
  let ?buf = "trieBuffer r"
  define idx where "idx = k * ?S + 1 + nat v"
  from ts have S: "?S = ?N + 1" and F: "?F = m * ?S" and m0: "0 < m"
    and Flen: "?F \<le> length ?buf" and Slen: "?S \<le> length ?buf"
    and p0: "pathOf 0 = []" and inj: "inj_on pathOf {..<m}"
    and plen: "\<forall>k<m. length (pathOf k) \<le> ?N \<and> in_range ?N (pathOf k)"
    and pref: "\<forall>k<m. k \<noteq> 0 \<longrightarrow> (\<exists>j<m. \<exists>c. pathOf k = pathOf j @ [c])"
    and slots: "\<forall>k<m. \<forall>c. 0 \<le> c \<and> c < int ?N \<longrightarrow>
            (node_slot r k c = - 1 \<and> (\<forall>j<m. pathOf j \<noteq> pathOf k @ [c]))
          \<or> (\<exists>j<m. node_slot r k c = int (j * ?S) \<and> pathOf j = pathOf k @ [c])"
    unfolding trie_struct_def by blast+
  have off: "1 + nat v < ?S" using v S by linarith
  have "(k + 1) * ?S \<le> m * ?S" using k by (intro mult_le_mono1) simp
  then have idxF: "idx < ?F" using off F unfolding idx_def by simp
  then have idxlen: "idx < length ?buf" using Flen by simp
  have cs: "jadd (jadd (Some (int (k * ?S))) (Some 1)) (Some v) = Some (int idx)"
    using v unfolding idx_def by simp
  have ns0: "node_slot r k v = ?buf ! idx"
    unfolding node_slot_def idx_def ..
  have rd: "ta_get ?buf (Some (int idx)) = Some (node_slot r k v)"
    using idxlen ns0 by simp
  have step: "trieStep (Some v) (Some (int (k * ?S)), r) =
     (if Some (node_slot r k v) = Some (- 1)
      then (case allocateNode r of (p, r') \<Rightarrow>
              (Some (int p), r'\<lparr>trieBuffer := ta_set (trieBuffer r') (Some (int idx)) (Some (int p))\<rparr>))
      else (Some (node_slot r k v), r))"
    by (simp only: trieStep_def Let_def prod.case cs rd)
  show ?thesis
  proof (cases "node_slot r k v = - 1")
    case False
    have vv: "0 \<le> v \<and> v < int ?N" using v by simp
    from slots[rule_format, OF k vv] False
    obtain j where j: "j < m" "node_slot r k v = int (j * ?S)" "pathOf j = pathOf k @ [v]"
      by blast
    have st: "trieStep (Some v) (Some (int (k * ?S)), r) = (Some (int (j * ?S)), r)"
      using step False j by simp
    have q7: "\<forall>j<m. pathOf j = pathOf j" by simp
    have q8: "\<forall>j<m. trieBuffer r ! (j * ?S) = trieBuffer r ! (j * ?S)" by simp
    have q9: "\<forall>j. m \<le> j \<and> j < m \<longrightarrow>
             trieBuffer r ! (j * ?S) = - 1 \<and> pathOf j = pathOf k @ [v]"
    proof (intro allI impI)
      fix j assume "m \<le> j \<and> j < m"
      then have False by linarith
      then show "trieBuffer r ! (j * ?S) = - 1 \<and> pathOf j = pathOf k @ [v]" ..
    qed
    show ?thesis
      apply (rule exI[of _ j], rule exI[of _ m], rule exI[of _ pathOf], rule exI[of _ r])
      apply (intro conjI)
               apply (rule st)
              apply (rule same_store_refl)
             apply (rule ts)
            apply (rule j(1))
           apply (rule j(3))
          apply (rule order_refl)
         apply (rule q7)
        apply (rule q8)
       apply (rule q9)
      apply (rule order_refl)
      done
  next
    case True
    have vv: "0 \<le> v \<and> v < int ?N" using v by simp
    have fresh: "\<forall>j<m. pathOf j \<noteq> pathOf k @ [v]"
      using slots[rule_format, OF k vv]
    proof (elim disjE)
      assume "node_slot r k v = - 1 \<and> (\<forall>j<m. pathOf j \<noteq> pathOf k @ [v])"
      then show ?thesis by simp
    next
      assume "\<exists>j<m. node_slot r k v = int (j * ?S) \<and> pathOf j = pathOf k @ [v]"
      then obtain j where "node_slot r k v = int (j * ?S)" by blast
      with True have False by linarith
      then show ?thesis ..
    qed
    have "?F + ?S \<le> 2 * length ?buf" using Flen Slen by simp
    from allocateNode_spec[OF this] obtain r1 where
      al: "allocateNode r = (?F, r1)" and ss1: "same_store r r1"
      and F1: "trieFreePtr r1 = ?F + ?S" and F1len: "trieFreePtr r1 \<le> length (trieBuffer r1)"
      and len1: "length ?buf \<le> length (trieBuffer r1)"
      and old1: "\<forall>j. j < ?F \<and> j < length ?buf \<longrightarrow> trieBuffer r1 ! j = ?buf ! j"
      and new1: "\<forall>j. ?F \<le> j \<and> j < ?F + ?S \<longrightarrow> trieBuffer r1 ! j = - 1"
      by blast
    define B where "B = (trieBuffer r1)[idx := int ?F]"
    define r' where "r' = r1\<lparr>trieBuffer := B\<rparr>"
    define pathOf' where "pathOf' = pathOf(m := pathOf k @ [v])"
    have res: "trieStep (Some v) (Some (int (k * ?S)), r) = (Some (int (m * ?S)), r')"
      using step True al F unfolding r'_def B_def by simp
    have ss: "same_store r r'" using ss1 unfolding r'_def same_store_def by simp
    have S': "trieNodeSize r' = ?S" "globalDegree r' = ?N" using ss unfolding same_store_def by simp_all
    have F': "trieFreePtr r' = (m + 1) * ?S" using F1 F unfolding r'_def by simp
    have lenB: "length B = length (trieBuffer r1)" unfolding B_def by simp
    have Bold: "\<And>j. j < ?F \<Longrightarrow> j \<noteq> idx \<Longrightarrow> B ! j = ?buf ! j"
      using old1 Flen unfolding B_def by simp
    have Bnew: "\<And>j. ?F \<le> j \<Longrightarrow> j < ?F + ?S \<Longrightarrow> B ! j = - 1"
      using new1 idxF unfolding B_def by simp
    have Bidx: "B ! idx = int ?F"
      using idxlen len1 unfolding B_def by simp
    have tb: "trieBuffer r' = B" unfolding r'_def by simp
    have pold: "\<And>j. j < m \<Longrightarrow> pathOf' j = pathOf j" unfolding pathOf'_def by simp
    have pnew: "pathOf' m = pathOf k @ [v]" unfolding pathOf'_def by simp
    have inj': "inj_on pathOf' {..<m + 1}"
    proof (rule inj_onI)
      fix x y assume xy: "x \<in> {..<m + 1}" "y \<in> {..<m + 1}" "pathOf' x = pathOf' y"
      show "x = y"
      proof (cases "x < m"; cases "y < m")
        assume "x < m" "y < m"
        with xy pold inj show ?thesis by (auto dest: inj_onD)
      next
        assume "x < m" "\<not> y < m"
        with xy have "y = m" by simp
        with xy \<open>x < m\<close> pold pnew fresh show ?thesis by auto
      next
        assume "\<not> x < m" "y < m"
        with xy have "x = m" by simp
        with xy \<open>y < m\<close> pold pnew fresh show ?thesis by auto
      next
        assume "\<not> x < m" "\<not> y < m"
        with xy show ?thesis by simp
      qed
    qed
    have plen': "\<forall>j<m + 1. length (pathOf' j) \<le> ?N \<and> in_range ?N (pathOf' j)"
    proof (intro allI impI)
      fix j assume "j < m + 1"
      show "length (pathOf' j) \<le> ?N \<and> in_range ?N (pathOf' j)"
      proof (cases "j < m")
        case True
        with plen pold show ?thesis by simp
      next
        case False
        with \<open>j < m + 1\<close> have "j = m" by simp
        with pnew plen k d v show ?thesis by (auto simp: in_range_def)
      qed
    qed
    have pref': "\<forall>j<m + 1. j \<noteq> 0 \<longrightarrow> (\<exists>i<m + 1. \<exists>c. pathOf' j = pathOf' i @ [c])"
    proof (intro allI impI)
      fix j assume j: "j < m + 1" "j \<noteq> 0"
      show "\<exists>i<m + 1. \<exists>c. pathOf' j = pathOf' i @ [c]"
      proof (cases "j < m")
        case True
        with pref j obtain i c where "i < m" "pathOf j = pathOf i @ [c]" by blast
        with True pold show ?thesis by (intro exI[of _ i]) auto
      next
        case False
        with j have "j = m" by simp
        with pnew pold k show ?thesis by (intro exI[of _ k]) auto
      qed
    qed
    have slots': "\<forall>k0<m + 1. \<forall>c. 0 \<le> c \<and> c < int ?N \<longrightarrow>
            (node_slot r' k0 c = - 1 \<and> (\<forall>j<m + 1. pathOf' j \<noteq> pathOf' k0 @ [c]))
          \<or> (\<exists>j<m + 1. node_slot r' k0 c = int (j * ?S) \<and> pathOf' j = pathOf' k0 @ [c])"
    proof (intro allI impI)
      fix k0 c assume k0: "k0 < m + 1" and c: "0 \<le> c \<and> c < int ?N"
      define i0 where "i0 = k0 * ?S + 1 + nat c"
      have offc: "1 + nat c < ?S" using c S by linarith
      have ns: "node_slot r' k0 c = B ! i0"
        unfolding node_slot_def i0_def tb S' by simp
      show "(node_slot r' k0 c = - 1 \<and> (\<forall>j<m + 1. pathOf' j \<noteq> pathOf' k0 @ [c]))
          \<or> (\<exists>j<m + 1. node_slot r' k0 c = int (j * ?S) \<and> pathOf' j = pathOf' k0 @ [c])"
      proof (cases "k0 < m")
        case False
        with k0 have k0m: "k0 = m" by simp
        have "?F \<le> i0" "i0 < ?F + ?S" using offc F unfolding i0_def k0m by simp_all
        then have "B ! i0 = - 1" by (rule Bnew)
        moreover have "\<forall>j<m + 1. pathOf' j \<noteq> pathOf' k0 @ [c]"
        proof (intro allI impI notI)
          fix j assume j: "j < m + 1" and e: "pathOf' j = pathOf' k0 @ [c]"
          show False
          proof (cases "j < m")
            case False
            with j have "j = m" by simp
            with e k0m show False by simp
          next
            case True
            with e pold pnew k0m have e2: "pathOf j = (pathOf k @ [v]) @ [c]" by simp
            have "j \<noteq> 0"
            proof
              assume "j = 0"
              with e2 p0 show False by simp
            qed
            with pref True obtain i c' where i: "i < m" "pathOf j = pathOf i @ [c']" by blast
            with e2 have "pathOf i = pathOf k @ [v]" by simp
            with fresh i show False by blast
          qed
        qed
        ultimately show ?thesis using ns by simp
      next
        case True
        have "(k0 + 1) * ?S \<le> m * ?S" using True by (intro mult_le_mono1) simp
        then have i0F: "i0 < ?F" using offc F unfolding i0_def by simp
        show ?thesis
        proof (cases "i0 = idx")
          case True
          then have "k0 = k \<and> 1 + nat c = 1 + nat v"
            using slot_index_unique[OF offc off, of k0 k] unfolding i0_def idx_def
            by (simp add: add.assoc)
          then have "k0 = k" "c = v" using c v by auto
          then have "node_slot r' k0 c = int (m * ?S)" "pathOf' m = pathOf' k0 @ [c]"
            using ns True Bidx F pnew pold k by simp_all
          then show ?thesis by (intro disjI2 exI[of _ m]) simp
        next
          case False
          then have same: "node_slot r' k0 c = node_slot r k0 c"
            using ns Bold[OF i0F] unfolding node_slot_def i0_def by simp
          from slots True c consider
            (empty) "node_slot r k0 c = - 1" "\<forall>j<m. pathOf j \<noteq> pathOf k0 @ [c]"
            | (ptr) j where "j < m" "node_slot r k0 c = int (j * ?S)" "pathOf j = pathOf k0 @ [c]"
            by blast
          then show ?thesis
          proof cases
            case ptr
            then show ?thesis using same pold True by (intro disjI2 exI[of _ j]) simp
          next
            case empty
            have "pathOf' m \<noteq> pathOf' k0 @ [c]"
            proof
              assume "pathOf' m = pathOf' k0 @ [c]"
              with pnew pold True have "pathOf k = pathOf k0" "v = c" by simp_all
              with inj k True have "k = k0" by (auto dest: inj_onD)
              with \<open>v = c\<close> False show False unfolding i0_def idx_def by simp
            qed
            moreover have "\<forall>j<m. pathOf' j \<noteq> pathOf' k0 @ [c]"
              using empty(2) pold True by simp
            ultimately have "\<forall>j<m + 1. pathOf' j \<noteq> pathOf' k0 @ [c]"
              by (metis Suc_eq_plus1 less_Suc_eq)
            then show ?thesis using same empty(1) by simp
          qed
        qed
      qed
    qed
    have lens: "trieFreePtr r' \<le> length (trieBuffer r')" "trieNodeSize r' \<le> length (trieBuffer r')"
      using F1len Slen len1 lenB ss1 unfolding r'_def same_store_def by simp_all
    have ts': "trie_struct r' (m + 1) pathOf'"
      unfolding trie_struct_def S'
      using S F' lens p0 m0 pold[of 0] inj' plen' pref' slots' S' by simp
    have idold: "\<forall>j<m. trieBuffer r' ! (j * ?S) = ?buf ! (j * ?S)"
    proof (intro allI impI)
      fix j assume j: "j < m"
      have "(j + 1) * ?S \<le> m * ?S" using j by (intro mult_le_mono1) simp
      then have jF: "j * ?S < ?F" using F S by simp
      have "j * ?S \<noteq> idx"
      proof
        assume "j * ?S = idx"
        then have "j * ?S + 0 = k * ?S + (1 + nat v)" unfolding idx_def by simp
        from slot_index_unique[OF _ off this] S show False by simp
      qed
      with Bold[OF jF] tb show "trieBuffer r' ! (j * ?S) = ?buf ! (j * ?S)" by simp
    qed
    have idnew: "\<forall>j. m \<le> j \<and> j < m + 1 \<longrightarrow>
             trieBuffer r' ! (j * ?S) = - 1 \<and> pathOf' j = pathOf k @ [v]"
    proof (intro allI impI)
      fix j assume "m \<le> j \<and> j < m + 1"
      then have "j = m" by simp
      moreover have "B ! (m * ?S) = - 1" using Bnew[of "m * ?S"] F S by simp
      ultimately show "trieBuffer r' ! (j * ?S) = - 1 \<and> pathOf' j = pathOf k @ [v]"
        using tb pnew by simp
    qed
    have lenr: "length ?buf \<le> length (trieBuffer r')" using len1 lenB tb by simp
    have q4: "m < m + 1" "m \<le> m + 1" by simp_all
    have q7: "\<forall>j<m. pathOf' j = pathOf j" using pold by simp
    show ?thesis
      apply (rule exI[of _ m], rule exI[of _ "m + 1"], rule exI[of _ pathOf'], rule exI[of _ r'])
      apply (intro conjI)
               apply (rule res)
              apply (rule ss)
             apply (rule ts')
            apply (rule q4(1))
           apply (rule pnew)
          apply (rule q4(2))
         apply (rule q7)
        apply (rule idold)
       apply (rule idnew)
      apply (rule lenr)
      done
  qed
qed


lemma walk_spec:
  assumes "trie_struct r m pathOf" and "k < m"
    and "in_range (globalDegree r) vals"
    and "length (pathOf k) + length vals \<le> globalDegree r"
  shows "\<exists>k' m' pathOf' r'.
      fold (\<lambda>v s. trieStep (Some v) s) vals (Some (int (k * trieNodeSize r)), r)
        = (Some (int (k' * trieNodeSize r)), r')
      \<and> same_store r r' \<and> trie_struct r' m' pathOf' \<and> k' < m' \<and> pathOf' k' = pathOf k @ vals
      \<and> m \<le> m' \<and> (\<forall>j<m. pathOf' j = pathOf j)
      \<and> (\<forall>j<m. trieBuffer r' ! (j * trieNodeSize r) = trieBuffer r ! (j * trieNodeSize r))
      \<and> (\<forall>j. m \<le> j \<and> j < m' \<longrightarrow>
             trieBuffer r' ! (j * trieNodeSize r) = - 1
             \<and> (\<exists>i. 0 < i \<and> i \<le> length vals \<and> pathOf' j = pathOf k @ take i vals))
      \<and> length (trieBuffer r) \<le> length (trieBuffer r')"
  using assms
proof (induction vals arbitrary: r m pathOf k)
  case Nil
  have q9: "\<forall>j. m \<le> j \<and> j < m \<longrightarrow> trieBuffer r ! (j * trieNodeSize r) = - 1
             \<and> (\<exists>i. 0 < i \<and> i \<le> length ([]::int list) \<and> pathOf j = pathOf k @ take i [])"
  proof (intro allI impI)
    fix j assume "m \<le> j \<and> j < m"
    then have False by linarith
    then show "trieBuffer r ! (j * trieNodeSize r) = - 1
             \<and> (\<exists>i. 0 < i \<and> i \<le> length ([]::int list) \<and> pathOf j = pathOf k @ take i [])" ..
  qed
  show ?case
    apply (rule exI[of _ k], rule exI[of _ m], rule exI[of _ pathOf], rule exI[of _ r])
    apply (intro conjI)
             apply simp
            apply (rule same_store_refl)
           apply (rule Nil(1))
          apply (rule Nil(2))
         apply simp
        apply (rule order_refl)
       apply simp
      apply simp
     apply (rule q9)
    apply (rule order_refl)
    done
next
  case (Cons v vs)
  let ?S = "trieNodeSize r" and ?N = "globalDegree r"
  from Cons.prems have v: "0 \<le> v" "v < int ?N" and vs: "in_range ?N vs"
    and d: "length (pathOf k) < ?N" and d2: "length (pathOf k) + 1 + length vs \<le> ?N"
    by (auto simp: in_range_def)
  from trieStep_spec[OF Cons.prems(1,2) v d] obtain k1 m1 p1 r1 where
    st: "trieStep (Some v) (Some (int (k * ?S)), r) = (Some (int (k1 * ?S)), r1)"
    and ss1: "same_store r r1" and ts1: "trie_struct r1 m1 p1" and k1: "k1 < m1"
    and pk1: "p1 k1 = pathOf k @ [v]" and mm1: "m \<le> m1"
    and po1: "\<forall>j<m. p1 j = pathOf j"
    and io1: "\<forall>j<m. trieBuffer r1 ! (j * ?S) = trieBuffer r ! (j * ?S)"
    and in1: "\<forall>j. m \<le> j \<and> j < m1 \<longrightarrow> trieBuffer r1 ! (j * ?S) = - 1 \<and> p1 j = pathOf k @ [v]"
    and l1: "length (trieBuffer r) \<le> length (trieBuffer r1)"
    by blast
  have eq1: "trieNodeSize r1 = ?S" "globalDegree r1 = ?N"
    using ss1 by (simp_all add: same_store_def)
  have pre: "in_range (globalDegree r1) vs" "length (p1 k1) + length vs \<le> globalDegree r1"
    using vs d2 pk1 eq1 by simp_all
  from Cons.IH[OF ts1 k1 pre] obtain k2 m2 p2 r2 where
    st2: "fold (\<lambda>v s. trieStep (Some v) s) vs (Some (int (k1 * ?S)), r1) = (Some (int (k2 * ?S)), r2)"
    and ss2: "same_store r1 r2" and ts2: "trie_struct r2 m2 p2" and k2: "k2 < m2"
    and pk2: "p2 k2 = p1 k1 @ vs" and mm2: "m1 \<le> m2"
    and po2: "\<forall>j<m1. p2 j = p1 j"
    and io2: "\<forall>j<m1. trieBuffer r2 ! (j * ?S) = trieBuffer r1 ! (j * ?S)"
    and in2: "\<forall>j. m1 \<le> j \<and> j < m2 \<longrightarrow> trieBuffer r2 ! (j * ?S) = - 1
                 \<and> (\<exists>i. 0 < i \<and> i \<le> length vs \<and> p2 j = p1 k1 @ take i vs)"
    and l2: "length (trieBuffer r1) \<le> length (trieBuffer r2)"
    unfolding eq1 by blast
  have f: "fold (\<lambda>v s. trieStep (Some v) s) (v # vs) (Some (int (k * ?S)), r) = (Some (int (k2 * ?S)), r2)"
    using st st2 by simp
  have c1: "\<forall>j<m. p2 j = pathOf j"
  proof (intro allI impI)
    fix j assume j: "j < m"
    then have "j < m1" using mm1 by simp
    with po1 po2 j show "p2 j = pathOf j" by simp
  qed
  have c2: "\<forall>j<m. trieBuffer r2 ! (j * ?S) = trieBuffer r ! (j * ?S)"
  proof (intro allI impI)
    fix j assume j: "j < m"
    then have "j < m1" using mm1 by simp
    with io1 io2 j show "trieBuffer r2 ! (j * ?S) = trieBuffer r ! (j * ?S)" by simp
  qed
  have c3: "\<forall>j. m \<le> j \<and> j < m2 \<longrightarrow> trieBuffer r2 ! (j * ?S) = - 1
               \<and> (\<exists>i. 0 < i \<and> i \<le> length (v # vs) \<and> p2 j = pathOf k @ take i (v # vs))"
  proof (intro allI impI)
    fix j assume j: "m \<le> j \<and> j < m2"
    show "trieBuffer r2 ! (j * ?S) = - 1
               \<and> (\<exists>i. 0 < i \<and> i \<le> length (v # vs) \<and> p2 j = pathOf k @ take i (v # vs))"
    proof (cases "j < m1")
      case True
      with j in1 io2 po2 have "trieBuffer r2 ! (j * ?S) = - 1" "p2 j = pathOf k @ [v]" by simp_all
      then show ?thesis by (intro conjI exI[of _ 1]) simp_all
    next
      case False
      with j have "m1 \<le> j \<and> j < m2" by simp
      from in2[rule_format, OF this] obtain i where i: "trieBuffer r2 ! (j * ?S) = - 1" "0 < i"
        "i \<le> length vs" "p2 j = p1 k1 @ take i vs" by blast
      then show ?thesis using pk1 by (intro conjI exI[of _ "Suc i"]) simp_all
    qed
  qed
  have q5: "p2 k2 = pathOf k @ v # vs" using pk2 pk1 by simp
  have q6: "m \<le> m2" using mm1 mm2 by simp
  have q10: "length (trieBuffer r) \<le> length (trieBuffer r2)" using l1 l2 by simp
  show ?case
    apply (rule exI[of _ k2], rule exI[of _ m2], rule exI[of _ p2], rule exI[of _ r2])
    apply (intro conjI)
             apply (rule f)
            apply (rule same_store_trans[OF ss1 ss2])
           apply (rule ts2)
          apply (rule k2)
         apply (rule q5)
        apply (rule q6)
       apply (rule c1)
      apply (rule c2)
     apply (rule c3)
    apply (rule q10)
    done
qed

definition trie_ids :: "repo \<Rightarrow> nat \<Rightarrow> (nat \<Rightarrow> int list) \<Rightarrow> nat \<Rightarrow> (nat \<Rightarrow> int list) \<Rightarrow> bool" where
  "trie_ids r m pathOf c P \<longleftrightarrow>
     trie_struct r m pathOf
     \<and> (\<forall>k<m. length (pathOf k) = globalDegree r \<longrightarrow>
            (\<exists>i<c. trieBuffer r ! (k * trieNodeSize r) = int i \<and> P i = pathOf k))
     \<and> (\<forall>i<c. \<exists>k<m. pathOf k = P i \<and> trieBuffer r ! (k * trieNodeSize r) = int i)"

lemma trie_struct_idslot:
  assumes ts: "trie_struct r m pathOf"
    and eqs: "globalDegree (r2::repo) = globalDegree r" "trieNodeSize r2 = trieNodeSize r"
             "trieFreePtr r2 = trieFreePtr r"
    and buf: "trieBuffer r2 = (trieBuffer r)[k * trieNodeSize r := x]"
  shows "trie_struct r2 m pathOf"
proof -
  let ?S = "trieNodeSize r"
  from ts have S: "?S = globalDegree r + 1" unfolding trie_struct_def by simp
  have ns: "\<And>k0 c. 0 \<le> c \<and> c < int (globalDegree r) \<Longrightarrow> node_slot r2 k0 c = node_slot r k0 c"
  proof -
    fix k0 c assume c: "0 \<le> c \<and> c < int (globalDegree r)"
    have off: "1 + nat c < ?S" using c S by linarith
    have "k0 * ?S + (1 + nat c) \<noteq> k * ?S + 0"
      using slot_index_unique[OF off _ , of 0 k0 k] S by auto
    then show "node_slot r2 k0 c = node_slot r k0 c"
      unfolding node_slot_def buf eqs by (simp add: add.assoc)
  qed
  from ts have parts: "?S = globalDegree r + 1" "trieFreePtr r = m * ?S" "0 < m"
    "trieFreePtr r \<le> length (trieBuffer r)" "?S \<le> length (trieBuffer r)"
    "pathOf 0 = []" "inj_on pathOf {..<m}"
    "\<forall>k<m. length (pathOf k) \<le> globalDegree r \<and> in_range (globalDegree r) (pathOf k)"
    "\<forall>k<m. k \<noteq> 0 \<longrightarrow> (\<exists>j<m. \<exists>c. pathOf k = pathOf j @ [c])"
    and slots: "\<forall>k<m. \<forall>c. 0 \<le> c \<and> c < int (globalDegree r) \<longrightarrow>
            (node_slot r k c = - 1 \<and> (\<forall>j<m. pathOf j \<noteq> pathOf k @ [c]))
          \<or> (\<exists>j<m. node_slot r k c = int (j * ?S) \<and> pathOf j = pathOf k @ [c])"
    unfolding trie_struct_def by blast+
  have slots2: "\<forall>k<m. \<forall>c. 0 \<le> c \<and> c < int (globalDegree r) \<longrightarrow>
            (node_slot r2 k c = - 1 \<and> (\<forall>j<m. pathOf j \<noteq> pathOf k @ [c]))
          \<or> (\<exists>j<m. node_slot r2 k c = int (j * ?S) \<and> pathOf j = pathOf k @ [c])"
  proof (intro allI impI)
    fix k0 c assume k0: "k0 < m" and c: "0 \<le> c \<and> c < int (globalDegree r)"
    from slots[rule_format, OF k0 c] ns[OF c, of k0]
    show "(node_slot r2 k0 c = - 1 \<and> (\<forall>j<m. pathOf j \<noteq> pathOf k0 @ [c]))
          \<or> (\<exists>j<m. node_slot r2 k0 c = int (j * ?S) \<and> pathOf j = pathOf k0 @ [c])"
      by (simp only:)
  qed
  have lb: "length (trieBuffer r2) = length (trieBuffer r)" unfolding buf by simp
  show ?thesis
    unfolding trie_struct_def eqs lb
    using parts slots2 by (intro conjI)
qed

lemma insert_spec:
  assumes ti: "trie_ids r m pathOf c P"
    and vals: "in_range (globalDegree r) vals" "length vals = globalDegree r"
  shows "\<exists>k' m' pathOf' r'.
      fold (\<lambda>v s. trieStep (Some v) s) vals (Some 0, r) = (Some (int (k' * trieNodeSize r)), r')
      \<and> same_store r r' \<and> k' * trieNodeSize r < length (trieBuffer r')
      \<and> length (trieBuffer r) \<le> length (trieBuffer r')
      \<and> ((\<exists>i<c. trieBuffer r' ! (k' * trieNodeSize r) = int i \<and> P i = vals
                 \<and> trie_ids r' m' pathOf' c P)
         \<or> (trieBuffer r' ! (k' * trieNodeSize r) = - 1 \<and> (\<forall>i<c. P i \<noteq> vals)
             \<and> (\<forall>P' (r2::repo). (\<forall>i<c. P' i = P i) \<and> P' c = vals
                   \<and> globalDegree r2 = globalDegree r \<and> trieNodeSize r2 = trieNodeSize r
                   \<and> trieFreePtr r2 = trieFreePtr r'
                   \<and> trieBuffer r2 = (trieBuffer r')[k' * trieNodeSize r := int c]
                 \<longrightarrow> trie_ids r2 m' pathOf' (c + 1) P')))"
proof -
  let ?S = "trieNodeSize r" and ?N = "globalDegree r"
  from ti have ts: "trie_struct r m pathOf"
    and leaf: "\<forall>k<m. length (pathOf k) = ?N \<longrightarrow>
            (\<exists>i<c. trieBuffer r ! (k * ?S) = int i \<and> P i = pathOf k)"
    and ids: "\<forall>i<c. \<exists>k<m. pathOf k = P i \<and> trieBuffer r ! (k * ?S) = int i"
    unfolding trie_ids_def by blast+
  from ts have m0: "0 < m" and p0: "pathOf 0 = []" unfolding trie_struct_def by blast+
  have pre: "length (pathOf 0) + length vals \<le> ?N" using p0 vals by simp
  from walk_spec[OF ts m0 vals(1) pre] obtain k' m' pathOf' r' where
    w: "fold (\<lambda>v s. trieStep (Some v) s) vals (Some 0, r) = (Some (int (k' * ?S)), r')"
    and ss: "same_store r r'" and ts': "trie_struct r' m' pathOf'" and k': "k' < m'"
    and pk: "pathOf' k' = vals" and mm: "m \<le> m'"
    and po: "\<forall>j<m. pathOf' j = pathOf j"
    and io: "\<forall>j<m. trieBuffer r' ! (j * ?S) = trieBuffer r ! (j * ?S)"
    and inew: "\<forall>j. m \<le> j \<and> j < m' \<longrightarrow> trieBuffer r' ! (j * ?S) = - 1
                 \<and> (\<exists>i. 0 < i \<and> i \<le> length vals \<and> pathOf' j = [] @ take i vals)"
    and ll: "length (trieBuffer r) \<le> length (trieBuffer r')"
    using p0 by auto
  have eq: "trieNodeSize r' = ?S" "globalDegree r' = ?N"
    using ss by (simp_all add: same_store_def)
  from ts' have F': "trieFreePtr r' = m' * ?S" "trieFreePtr r' \<le> length (trieBuffer r')"
    and S: "?S = ?N + 1" and inj': "inj_on pathOf' {..<m'}"
    unfolding trie_struct_def eq by blast+
  have "(k' + 1) * ?S \<le> m' * ?S" using k' by (intro mult_le_mono1) simp
  then have kl: "k' * ?S < length (trieBuffer r')" using F' S by simp
  have newfull: "\<And>j. m \<le> j \<Longrightarrow> j < m' \<Longrightarrow> length (pathOf' j) = ?N \<Longrightarrow> j = k'"
  proof -
    fix j assume j: "m \<le> j" "j < m'" "length (pathOf' j) = ?N"
    with inew obtain i where "i \<le> length vals" "pathOf' j = take i vals" by auto
    with j(3) vals(2) have "pathOf' j = vals" by simp
    with pk inj' j(2) k' show "j = k'" by (auto dest: inj_onD)
  qed
  have leaf_old: "\<exists>i<c. trieBuffer r' ! (j * ?S) = int i \<and> P i = pathOf' j"
    if "j < m" "length (pathOf' j) = ?N" for j
  proof -
    from that po have "length (pathOf j) = ?N" by simp
    with leaf that obtain i where "i < c" "trieBuffer r ! (j * ?S) = int i" "P i = pathOf j"
      by blast
    with po io that show ?thesis by (intro exI[of _ i]) simp
  qed
  have ids_old: "\<exists>k<m. pathOf' k = P i \<and> trieBuffer r' ! (k * ?S) = int i" if "i < c" for i
  proof -
    from ids that obtain k where "k < m" "pathOf k = P i" "trieBuffer r ! (k * ?S) = int i"
      by blast
    with po io show ?thesis by (intro exI[of _ k]) simp
  qed
  show ?thesis
  proof (cases "k' < m")
    case True
    from leaf_old[OF True] pk vals(2) obtain i where
      i: "i < c" "trieBuffer r' ! (k' * ?S) = int i" "P i = vals" by auto
    have "trie_ids r' m' pathOf' c P"
      unfolding trie_ids_def eq
    proof (intro conjI allI impI)
      show "trie_struct r' m' pathOf'" by (rule ts')
    next
      fix j assume j: "j < m'" "length (pathOf' j) = ?N"
      show "\<exists>i<c. trieBuffer r' ! (j * ?S) = int i \<and> P i = pathOf' j"
      proof (cases "j < m")
        case True
        then show ?thesis using leaf_old j by simp
      next
        case False
        with newfull[of j] j have "j = k'" by simp
        with True False show ?thesis by simp
      qed
    next
      fix i assume "i < c"
      from ids_old[OF this] obtain k where "k < m" "pathOf' k = P i"
        "trieBuffer r' ! (k * ?S) = int i" by blast
      with mm show "\<exists>k<m'. pathOf' k = P i \<and> trieBuffer r' ! (k * ?S) = int i"
        by (intro exI[of _ k]) simp
    qed
    with i have D: "\<exists>i<c. trieBuffer r' ! (k' * ?S) = int i \<and> P i = vals
                 \<and> trie_ids r' m' pathOf' c P"
      by (intro exI[of _ i]) simp
    show ?thesis
      apply (rule exI[of _ k'], rule exI[of _ m'], rule exI[of _ pathOf'], rule exI[of _ r'])
      apply (intro conjI)
          apply (rule w)
         apply (rule ss)
        apply (rule kl)
       apply (rule ll)
      apply (rule disjI1)
      apply (rule D)
      done
  next
    case False
    with inew k' have empty: "trieBuffer r' ! (k' * ?S) = - 1" by simp
    have notin: "\<forall>i<c. P i \<noteq> vals"
    proof (intro allI impI notI)
      fix i assume "i < c" "P i = vals"
      with ids_old[of i] obtain k where "k < m" "pathOf' k = vals" by auto
      with pk inj' k' mm have "k = k'" by (auto dest: inj_onD)
      with \<open>k < m\<close> False show False by simp
    qed
    have upd: "\<forall>P' (r2::repo). (\<forall>i<c. P' i = P i) \<and> P' c = vals
                   \<and> globalDegree r2 = ?N \<and> trieNodeSize r2 = ?S
                   \<and> trieFreePtr r2 = trieFreePtr r'
                   \<and> trieBuffer r2 = (trieBuffer r')[k' * ?S := int c]
                 \<longrightarrow> trie_ids r2 m' pathOf' (c + 1) P'"
    proof (intro allI impI)
      fix P' and r2 :: repo
      assume a: "(\<forall>i<c. P' i = P i) \<and> P' c = vals
                   \<and> globalDegree r2 = ?N \<and> trieNodeSize r2 = ?S
                   \<and> trieFreePtr r2 = trieFreePtr r'
                   \<and> trieBuffer r2 = (trieBuffer r')[k' * ?S := int c]"
      have ts2: "trie_struct r2 m' pathOf'"
        using trie_struct_idslot[OF ts', of r2 k' "int c"] a eq by simp
      have rd: "\<And>j. j < m' \<Longrightarrow> trieBuffer r2 ! (j * ?S)
                  = (if j = k' then int c else trieBuffer r' ! (j * ?S))"
      proof -
        fix j assume "j < m'"
        have "?S \<noteq> 0" using S by simp
        then have ne: "j \<noteq> k' \<Longrightarrow> k' * ?S \<noteq> j * ?S" by simp
        have tb2: "trieBuffer r2 = (trieBuffer r')[k' * ?S := int c]" using a by simp
        show "trieBuffer r2 ! (j * ?S) = (if j = k' then int c else trieBuffer r' ! (j * ?S))"
        proof (cases "j = k'")
          case True
          then show ?thesis unfolding tb2 using kl by simp
        next
          case False
          from ne[OF False] False show ?thesis unfolding tb2 by simp
        qed
      qed
      show "trie_ids r2 m' pathOf' (c + 1) P'"
        unfolding trie_ids_def
      proof (intro conjI allI impI)
        show "trie_struct r2 m' pathOf'" by (rule ts2)
      next
        fix j assume j: "j < m'" "length (pathOf' j) = globalDegree r2"
        show "\<exists>i<c + 1. trieBuffer r2 ! (j * trieNodeSize r2) = int i \<and> P' i = pathOf' j"
        proof (cases "j = k'")
          case True
          then show ?thesis using rd[OF j(1)] a pk by (intro exI[of _ c]) simp
        next
          case jk: False
          have "j < m"
          proof (rule ccontr)
            assume "\<not> j < m"
            with newfull[of j] j a jk show False by simp
          qed
          from leaf_old[OF this] j a obtain i where "i < c" "trieBuffer r' ! (j * ?S) = int i"
            "P i = pathOf' j" by auto
          then show ?thesis using rd[OF j(1)] jk a by (intro exI[of _ i]) simp
        qed
      next
        fix i assume i: "i < c + 1"
        show "\<exists>k<m'. pathOf' k = P' i \<and> trieBuffer r2 ! (k * trieNodeSize r2) = int i"
        proof (cases "i = c")
          case True
          then show ?thesis using rd[OF k'] k' pk a by (intro exI[of _ k']) simp
        next
          case ic: False
          with i have "i < c" by simp
          from ids_old[OF this] obtain k where k: "k < m" "pathOf' k = P i"
            "trieBuffer r' ! (k * ?S) = int i" by auto
          then have "k \<noteq> k'" "k < m'" using False mm by auto
          then show ?thesis using rd[of k] k a \<open>i < c\<close> by (intro exI[of _ k]) simp
        qed
      qed
    qed
    show ?thesis
      apply (rule exI[of _ k'], rule exI[of _ m'], rule exI[of _ pathOf'], rule exI[of _ r'])
      apply (intro conjI)
          apply (rule w)
         apply (rule ss)
        apply (rule kl)
       apply (rule ll)
      apply (rule disjI2)
      apply (intro conjI)
        apply (rule empty)
       apply (rule notin)
      apply (rule upd)
      done
  qed
qed

definition pad :: "nat \<Rightarrow> int list \<Rightarrow> int list" where
  "pad N raw = map (\<lambda>i. if i < length raw then raw ! i else int i) [0..<N]"

lemma length_pad [simp]: "length (pad N raw) = N"
  by (simp add: pad_def)

lemma pad_nth: "k < N \<Longrightarrow> pad N raw ! k = (if k < length raw then raw ! k else int k)"
  by (simp add: pad_def)

lemma in_range_pad:
  assumes "in_range N raw"
  shows "in_range N (pad N raw)"
  using assms unfolding in_range_def pad_def by auto

lemma block_length:
  "(i + 1) * N \<le> length b \<Longrightarrow> length (take N (drop (i * N) b)) = N"
  by simp

lemma block_nth:
  "(i + 1) * N \<le> length b \<Longrightarrow> k < N \<Longrightarrow> take N (drop (i * N) b) ! k = b ! (i * N + k)"
  by simp

lemma block_bound: "i < (c::nat) \<Longrightarrow> (i + 1) * N \<le> c * N"
  by (intro mult_le_mono1) simp

lemma block_index_bound: "i < (c::nat) \<Longrightarrow> k < N \<Longrightarrow> i * N + k < c * N"
  using block_bound[of i c N] by simp

definition store_ok :: "repo \<Rightarrow> bool" where
  "store_ok r \<longleftrightarrow>
     0 < permCapacity r \<and> count r \<le> permCapacity r
     \<and> length (permBuffer r) = permCapacity r * globalDegree r
     \<and> (\<forall>i<count r. in_range (globalDegree r) (get r i))"

definition repo_inv :: "repo \<Rightarrow> bool" where
  "repo_inv r \<longleftrightarrow>
     store_ok r \<and> INITIAL_TRIE_SLOTS \<le> length (trieBuffer r)
     \<and> (\<exists>m pathOf. trie_ids r m pathOf (count r) (get r))"

lemma get_length:
  assumes "length (permBuffer r) = permCapacity r * globalDegree r" "i < permCapacity r"
  shows "length (get r i) = globalDegree r"
  unfolding get_def using block_bound[OF assms(2), of "globalDegree r"] assms(1) by simp

lemma get_nth:
  assumes "length (permBuffer r) = permCapacity r * globalDegree r" "i < permCapacity r"
    "k < globalDegree r"
  shows "get r i ! k = permBuffer r ! (i * globalDegree r + k)"
proof -
  have "(i + 1) * globalDegree r \<le> length (permBuffer r)"
    using block_bound[OF assms(2), of "globalDegree r"] assms(1) by simp
  from block_nth[OF this assms(3)] show ?thesis unfolding get_def .
qed

lemma get_eqI:
  assumes "length (permBuffer r) = permCapacity r * globalDegree r" "i < permCapacity r"
    and "length (permBuffer r') = permCapacity r' * globalDegree r'" "i < permCapacity r'"
    and "globalDegree r' = globalDegree r"
    and "\<And>k. k < globalDegree r \<Longrightarrow>
           permBuffer r' ! (i * globalDegree r + k) = permBuffer r ! (i * globalDegree r + k)"
  shows "get r' i = get r i"
proof (rule nth_equalityI)
  show "length (get r' i) = length (get r i)"
    using get_length[OF assms(1,2)] get_length[OF assms(3,4)] assms(5) by simp
next
  fix k assume "k < length (get r' i)"
  then have k: "k < globalDegree r" using get_length[OF assms(3,4)] assms(5) by simp
  show "get r' i ! k = get r i ! k"
    using get_nth[OF assms(1,2) k] get_nth[OF assms(3,4), of k] k assms(5,6) by simp
qed

lemma trie_struct_cong:
  assumes "trie_struct r m pathOf"
    and "globalDegree (r2::repo) = globalDegree r" "trieNodeSize r2 = trieNodeSize r"
        "trieFreePtr r2 = trieFreePtr r" "trieBuffer r2 = trieBuffer r"
  shows "trie_struct r2 m pathOf"
  using assms(1) unfolding trie_struct_def node_slot_def assms(2-5) .

lemma trie_ids_cong:
  assumes "trie_ids r m pathOf c P"
    and "globalDegree (r2::repo) = globalDegree r" "trieNodeSize r2 = trieNodeSize r"
        "trieFreePtr r2 = trieFreePtr r" "trieBuffer r2 = trieBuffer r"
    and "\<forall>i<c. P' i = P i"
  shows "trie_ids r2 m pathOf c P'"
proof -
  from assms(1) have ts: "trie_struct r m pathOf"
    and leaf: "\<forall>k<m. length (pathOf k) = globalDegree r \<longrightarrow>
            (\<exists>i<c. trieBuffer r ! (k * trieNodeSize r) = int i \<and> P i = pathOf k)"
    and idl: "\<forall>i<c. \<exists>k<m. pathOf k = P i \<and> trieBuffer r ! (k * trieNodeSize r) = int i"
    unfolding trie_ids_def by blast+
  have a: "trie_struct r2 m pathOf" by (rule trie_struct_cong[OF ts assms(2-5)])
  have b: "\<forall>k<m. length (pathOf k) = globalDegree r \<longrightarrow>
            (\<exists>i<c. trieBuffer r ! (k * trieNodeSize r) = int i \<and> P' i = pathOf k)"
  proof (intro allI impI)
    fix k assume "k < m" "length (pathOf k) = globalDegree r"
    with leaf obtain i where "i < c" "trieBuffer r ! (k * trieNodeSize r) = int i" "P i = pathOf k"
      by blast
    with assms(6) show "\<exists>i<c. trieBuffer r ! (k * trieNodeSize r) = int i \<and> P' i = pathOf k"
      by (intro exI[of _ i]) simp
  qed
  have c: "\<forall>i<c. \<exists>k<m. pathOf k = P' i \<and> trieBuffer r ! (k * trieNodeSize r) = int i"
  proof (intro allI impI)
    fix i assume i: "i < c"
    with idl obtain k where "k < m" "pathOf k = P i" "trieBuffer r ! (k * trieNodeSize r) = int i"
      by blast
    with assms(6) i show "\<exists>k<m. pathOf k = P' i \<and> trieBuffer r ! (k * trieNodeSize r) = int i"
      by (intro exI[of _ k]) simp
  qed
  show ?thesis
    unfolding trie_ids_def assms(2-5) using a b c by (intro conjI)
qed

lemma expandPermCapacity_spec:
  assumes "store_ok r"
  shows "permCapacity (expandPermCapacity r) = 2 * permCapacity r"
    and "length (permBuffer (expandPermCapacity r)) = 2 * permCapacity r * globalDegree r"
    and "globalDegree (expandPermCapacity r) = globalDegree r"
    and "count (expandPermCapacity r) = count r"
    and "trieNodeSize (expandPermCapacity r) = trieNodeSize r"
    and "trieFreePtr (expandPermCapacity r) = trieFreePtr r"
    and "trieBuffer (expandPermCapacity r) = trieBuffer r"
    and "\<And>i. i < permCapacity r \<Longrightarrow> get (expandPermCapacity r) i = get r i"
proof -
  let ?N = "globalDegree r" and ?c = "permCapacity r"
  from assms have len: "length (permBuffer r) = ?c * ?N" unfolding store_ok_def by simp
  have pb: "permBuffer (expandPermCapacity r) = permBuffer r @ replicate (?c * ?N) 0"
    unfolding expandPermCapacity_def Let_def using len by simp
  show c2: "permCapacity (expandPermCapacity r) = 2 * ?c"
    and l2: "length (permBuffer (expandPermCapacity r)) = 2 * ?c * ?N"
    and n2: "globalDegree (expandPermCapacity r) = ?N"
    and "count (expandPermCapacity r) = count r"
    and "trieNodeSize (expandPermCapacity r) = trieNodeSize r"
    and "trieFreePtr (expandPermCapacity r) = trieFreePtr r"
    and "trieBuffer (expandPermCapacity r) = trieBuffer r"
    using len unfolding expandPermCapacity_def Let_def by simp_all
  fix i assume i: "i < ?c"
  show "get (expandPermCapacity r) i = get r i"
  proof (rule get_eqI[OF len i _ _ n2])
    show "length (permBuffer (expandPermCapacity r))
            = permCapacity (expandPermCapacity r) * globalDegree (expandPermCapacity r)"
      using l2 c2 n2 by simp
    show "i < permCapacity (expandPermCapacity r)" using i c2 by simp
    fix k assume "k < ?N"
    then have "i * ?N + k < length (permBuffer r)" using block_index_bound[OF i] len by simp
    then show "permBuffer (expandPermCapacity r) ! (i * ?N + k) = permBuffer r ! (i * ?N + k)"
      unfolding pb by (simp add: nth_append)
  qed
qed

lemma writeToPermBuffer_fields:
  "globalDegree (writeToPermBuffer r c raw L) = globalDegree r"
  "count (writeToPermBuffer r c raw L) = count r"
  "permCapacity (writeToPermBuffer r c raw L) = permCapacity r"
  "trieNodeSize (writeToPermBuffer r c raw L) = trieNodeSize r"
  "trieFreePtr (writeToPermBuffer r c raw L) = trieFreePtr r"
  "trieBuffer (writeToPermBuffer r c raw L) = trieBuffer r"
  unfolding writeToPermBuffer_def Let_def by simp_all

lemma writeToPermBuffer_buffer:
  "permBuffer (writeToPermBuffer r c raw L) =
     fold (\<lambda>i b. b[c * globalDegree r + i := int i]) [L..<globalDegree r]
       (fold (\<lambda>i b. b[c * globalDegree r + i := raw ! i]) [0..<L] (permBuffer r))"
  unfolding writeToPermBuffer_def Let_def ta_set_nat toInt32_simps by simp

lemma writeToPermBuffer_spec:
  assumes len: "length (permBuffer r) = permCapacity r * globalDegree r"
    and c: "c < permCapacity r" and L: "L = length raw" "L \<le> globalDegree r"
  shows "length (permBuffer (writeToPermBuffer r c raw L)) = permCapacity r * globalDegree r"
    and "get (writeToPermBuffer r c raw L) c = pad (globalDegree r) raw"
    and "\<And>i. i < permCapacity r \<Longrightarrow> i \<noteq> c \<Longrightarrow> get (writeToPermBuffer r c raw L) i = get r i"
proof -
  let ?N = "globalDegree r" and ?r' = "writeToPermBuffer r c raw L"
  let ?b1 = "fold (\<lambda>i b. b[c * ?N + i := raw ! i]) [0..<L] (permBuffer r)"
  note f = writeToPermBuffer_fields[of r c raw L]
  show l': "length (permBuffer ?r') = permCapacity r * ?N"
    unfolding writeToPermBuffer_buffer using len by simp
  have nth': "permBuffer ?r' ! j =
      (if c * ?N + L \<le> j \<and> j < c * ?N + ?N then int (j - c * ?N)
       else if c * ?N \<le> j \<and> j < c * ?N + L then raw ! (j - c * ?N) else permBuffer r ! j)"
    if "j < length (permBuffer r)" for j
  proof -
    have "j < length ?b1" using that by simp
    from fold_upd_nth[OF this, of "c * ?N" "\<lambda>i. int i" L ?N]
         fold_upd_nth[OF that, of "c * ?N" "\<lambda>i. raw ! i" 0 L]
    show ?thesis unfolding writeToPermBuffer_buffer by simp
  qed
  have l2: "length (permBuffer ?r') = permCapacity ?r' * globalDegree ?r'"
    using l' f by simp
  show "get ?r' c = pad ?N raw"
  proof (rule nth_equalityI)
    show "length (get ?r' c) = length (pad ?N raw)"
      using get_length[OF l2, of c] c f by simp
  next
    fix k assume "k < length (get ?r' c)"
    then have k: "k < ?N" using get_length[OF l2, of c] c f by simp
    have j: "c * ?N + k < length (permBuffer r)" using block_index_bound[OF c k] len by simp
    have "get ?r' c ! k = permBuffer ?r' ! (c * ?N + k)"
      using get_nth[OF l2, of c k] c k f by simp
    also have "\<dots> = (if k < L then raw ! k else int k)"
      using nth'[OF j] k L by auto
    finally show "get ?r' c ! k = pad ?N raw ! k"
      using pad_nth[OF k, of raw] L by simp
  qed
  fix i assume i: "i < permCapacity r" "i \<noteq> c"
  show "get ?r' i = get r i"
  proof (rule get_eqI[OF len i(1) l2])
    show "i < permCapacity ?r'" using i f by simp
    show "globalDegree ?r' = ?N" using f by simp
    fix k assume k: "k < ?N"
    have j: "i * ?N + k < length (permBuffer r)" using block_index_bound[OF i(1) k] len by simp
    have out: "\<not> (c * ?N \<le> i * ?N + k \<and> i * ?N + k < c * ?N + ?N)"
    proof
      assume a: "c * ?N \<le> i * ?N + k \<and> i * ?N + k < c * ?N + ?N"
      then obtain k2 where "k2 < ?N" "i * ?N + k = c * ?N + k2"
        by (metis add_diff_inverse_nat add_less_cancel_left not_less)
      from slot_index_unique[OF k this(1) this(2)] i(2) show False by simp
    qed
    with nth'[OF j] L show "permBuffer ?r' ! (i * ?N + k) = permBuffer r ! (i * ?N + k)"
      by auto
  qed
qed

lemma int_ne_minus_one: "int i \<noteq> - 1"
  by linarith

lemma register_noupgrade:
  assumes inv: "repo_inv r" and L: "length raw \<le> globalDegree r"
    and rng: "in_range (globalDegree r) raw"
  shows "\<exists>i r'. register r raw = (Some (int i), r') \<and> repo_inv r'
          \<and> globalDegree r' = globalDegree r
          \<and> i < count r' \<and> get r' i = pad (globalDegree r) raw
          \<and> count r \<le> count r' \<and> count r' \<le> count r + 1
          \<and> (\<forall>j<count r. get r' j = get r j)
          \<and> (count r' = count r + 1 \<longrightarrow> i = count r)
          \<and> length (trieBuffer r) \<le> length (trieBuffer r')
          \<and> permCapacity r \<le> permCapacity r'"
proof -
  let ?N = "globalDegree r" and ?S = "trieNodeSize r" and ?c = "count r"
  from inv obtain m pathOf where so: "store_ok r"
    and init: "INITIAL_TRIE_SLOTS \<le> length (trieBuffer r)"
    and ti: "trie_ids r m pathOf ?c (get r)"
    unfolding repo_inv_def by blast
  from so have cap: "0 < permCapacity r" "?c \<le> permCapacity r"
    and len: "length (permBuffer r) = permCapacity r * ?N"
    and rngs: "\<forall>i<?c. in_range ?N (get r i)"
    unfolding store_ok_def by blast+
  define r2 where "r2 = (if count r \<ge> permCapacity r then expandPermCapacity r else r)"
  have r2f: "globalDegree r2 = ?N" "count r2 = ?c" "trieNodeSize r2 = ?S"
    "trieFreePtr r2 = trieFreePtr r" "trieBuffer r2 = trieBuffer r"
    using expandPermCapacity_spec(3-7)[OF so] unfolding r2_def by simp_all
  have r2c: "permCapacity r \<le> permCapacity r2" "?c < permCapacity r2"
    "length (permBuffer r2) = permCapacity r2 * ?N"
    using expandPermCapacity_spec(1,2)[OF so] cap len unfolding r2_def by auto
  have r2g: "get r2 i = get r i" if "i < permCapacity r" for i
    using expandPermCapacity_spec(8)[OF so that] unfolding r2_def by simp
  have r2g': "\<forall>i<?c. get r2 i = get r i" using r2g cap by simp
  have ti2: "trie_ids r2 m pathOf ?c (get r2)"
    by (rule trie_ids_cong[OF ti r2f(1,3,4,5) r2g'])
  define vals where "vals = pad ?N raw"
  have valsr: "in_range (globalDegree r2) vals" "length vals = globalDegree r2"
    using in_range_pad[OF rng] r2f unfolding vals_def by simp_all
  from insert_spec[OF ti2 valsr] obtain k' m' pathOf' r3 where
    w: "fold (\<lambda>v s. trieStep (Some v) s) vals (Some 0, r2) = (Some (int (k' * trieNodeSize r2)), r3)"
    and ss: "same_store r2 r3" and kl: "k' * trieNodeSize r2 < length (trieBuffer r3)"
    and ll: "length (trieBuffer r2) \<le> length (trieBuffer r3)"
    and cases: "(\<exists>i<?c. trieBuffer r3 ! (k' * trieNodeSize r2) = int i \<and> get r2 i = vals
                 \<and> trie_ids r3 m' pathOf' ?c (get r2))
         \<or> (trieBuffer r3 ! (k' * trieNodeSize r2) = - 1 \<and> (\<forall>i<?c. get r2 i \<noteq> vals)
             \<and> (\<forall>P' (rx::repo). (\<forall>i<?c. P' i = get r2 i) \<and> P' ?c = vals
                   \<and> globalDegree rx = globalDegree r2 \<and> trieNodeSize rx = trieNodeSize r2
                   \<and> trieFreePtr rx = trieFreePtr r3
                   \<and> trieBuffer rx = (trieBuffer r3)[k' * trieNodeSize r2 := int ?c]
                 \<longrightarrow> trie_ids rx m' pathOf' (?c + 1) P'))"
    by blast
  have foldeq: "fold (\<lambda>i s. trieStep (Some (if i < length raw then raw ! i else int i)) s)
                  [0..<globalDegree r2] (Some 0, r2) = (Some (int (k' * ?S)), r3)"
    using w unfolding vals_def pad_def r2f by (simp add: fold_map comp_def)
  have e1: "(if length raw > globalDegree r then upgradeDegree r (length raw) else r) = r"
    using L by simp
  have kl': "k' * ?S < length (trieBuffer r3)" using kl r2f by simp
  have rdid: "ta_get (trieBuffer r3) (Some (int (k' * ?S))) = Some (trieBuffer r3 ! (k' * ?S))"
    unfolding ta_get_nat using kl' by simp
  have reg: "register r raw =
    (if Some (trieBuffer r3 ! (k' * ?S)) = Some (- 1)
     then (Some (int (count r3)),
           writeToPermBuffer
             (r3\<lparr>count := count r3 + 1,
                 trieBuffer := (trieBuffer r3)[k' * ?S := int (count r3)]\<rparr>)
             (count r3) raw (length raw))
     else (Some (trieBuffer r3 ! (k' * ?S)), r3))"
    unfolding register_def Let_def e1 r2_def[symmetric] foldeq prod.case rdid ta_set_nat
      toInt32_simps ..
  have f3: "globalDegree r3 = ?N" "count r3 = ?c" "permCapacity r3 = permCapacity r2"
    "permBuffer r3 = permBuffer r2" "trieNodeSize r3 = ?S"
    using ss r2f unfolding same_store_def by simp_all
  have g3: "get r3 = get r2"
    by (rule ext) (simp add: get_def f3 r2f)
  have old_get: "\<forall>j<?c. get r2 j = get r j" by (rule r2g')
  have tl3: "length (trieBuffer r) \<le> length (trieBuffer r3)" using ll r2f by simp
  have cap2: "0 < permCapacity r2" using cap r2c by simp
  show ?thesis
    using cases
  proof (elim disjE exE conjE)
    fix i assume i: "i < ?c" and b: "trieBuffer r3 ! (k' * trieNodeSize r2) = int i"
      and gi: "get r2 i = vals" and ti3: "trie_ids r3 m' pathOf' ?c (get r2)"
    have res: "register r raw = (Some (int i), r3)"
      unfolding reg using b r2f int_ne_minus_one[of i] by simp
    have so3: "store_ok r3"
      unfolding store_ok_def f3 g3 using cap2 r2c r2g' rngs r2f by simp
    have ti3': "trie_ids r3 m' pathOf' (count r3) (get r3)"
      using ti3 unfolding f3 g3 .
    have inv3: "repo_inv r3"
      unfolding repo_inv_def using so3 init tl3 ti3' by auto
    have q4: "i < count r3" using i f3 by simp
    have q5: "get r3 i = pad ?N raw" using gi g3 unfolding vals_def by simp
    have q6: "?c \<le> count r3" "count r3 \<le> ?c + 1" using f3 by simp_all
    have q8: "\<forall>j<?c. get r3 j = get r j" using old_get g3 by simp
    have q9: "count r3 = ?c + 1 \<longrightarrow> i = ?c" using f3 by simp
    have q11: "permCapacity r \<le> permCapacity r3" using r2c f3 by simp
    show ?thesis
      apply (rule exI[of _ i], rule exI[of _ r3])
      apply (intro conjI)
                apply (rule res)
               apply (rule inv3)
              apply (rule f3(1))
             apply (rule q4)
            apply (rule q5)
           apply (rule q6(1))
          apply (rule q6(2))
         apply (rule q8)
        apply (rule q9)
       apply (rule tl3)
      apply (rule q11)
      done
  next
    assume b: "trieBuffer r3 ! (k' * trieNodeSize r2) = - 1"
      and notin: "\<forall>i<?c. get r2 i \<noteq> vals"
      and upd: "\<forall>P' (rx::repo). (\<forall>i<?c. P' i = get r2 i) \<and> P' ?c = vals
                   \<and> globalDegree rx = globalDegree r2 \<and> trieNodeSize rx = trieNodeSize r2
                   \<and> trieFreePtr rx = trieFreePtr r3
                   \<and> trieBuffer rx = (trieBuffer r3)[k' * trieNodeSize r2 := int ?c]
                 \<longrightarrow> trie_ids rx m' pathOf' (?c + 1) P'"
    define r4 where "r4 = r3\<lparr>count := ?c + 1, trieBuffer := (trieBuffer r3)[k' * ?S := int ?c]\<rparr>"
    define r5 where "r5 = writeToPermBuffer r4 ?c raw (length raw)"
    have res: "register r raw = (Some (int ?c), r5)"
      unfolding reg r5_def r4_def using b r2f f3 by simp
    have f4: "globalDegree r4 = ?N" "count r4 = ?c + 1" "permCapacity r4 = permCapacity r2"
      "permBuffer r4 = permBuffer r2" "trieNodeSize r4 = ?S" "trieFreePtr r4 = trieFreePtr r3"
      "trieBuffer r4 = (trieBuffer r3)[k' * ?S := int ?c]"
      unfolding r4_def using f3 by simp_all
    have g4: "get r4 = get r2"
      by (rule ext) (simp add: get_def f4 r2f)
    have len4: "length (permBuffer r4) = permCapacity r4 * globalDegree r4"
      using r2c f4 by simp
    have c4: "?c < permCapacity r4" using r2c f4 by simp
    have L4: "length raw \<le> globalDegree r4" using L f4 by simp
    note wf = writeToPermBuffer_fields[of r4 ?c raw "length raw", folded r5_def]
    note ws = writeToPermBuffer_spec[OF len4 c4 refl L4, folded r5_def]
    have f5: "globalDegree r5 = ?N" "count r5 = ?c + 1" "permCapacity r5 = permCapacity r2"
      "trieNodeSize r5 = ?S" "trieFreePtr r5 = trieFreePtr r3"
      "trieBuffer r5 = (trieBuffer r3)[k' * ?S := int ?c]"
      using wf f4 by simp_all
    have g5c: "get r5 ?c = vals" using ws(2) f4 unfolding vals_def by simp
    have g5o: "\<forall>j<?c. get r5 j = get r2 j"
    proof (intro allI impI)
      fix j assume j: "j < ?c"
      then have "j < permCapacity r4" "j \<noteq> ?c" using c4 by simp_all
      from ws(3)[OF this] g4 show "get r5 j = get r2 j" by simp
    qed
    have ti5: "trie_ids r5 m' pathOf' (?c + 1) (get r5)"
      by (rule upd[rule_format, of "get r5" r5]) (use g5o g5c f5 r2f in simp)
    have so5: "store_ok r5"
      unfolding store_ok_def f5
    proof (intro conjI allI impI)
      show "0 < permCapacity r2" by (rule cap2)
      show "?c + 1 \<le> permCapacity r2" using r2c by simp
      show "length (permBuffer r5) = permCapacity r2 * ?N" using ws(1) f4 by simp
      fix j assume "j < ?c + 1"
      then consider "j < ?c" | "j = ?c" by linarith
      then show "in_range ?N (get r5 j)"
      proof cases
        case 1
        with g5o r2g' rngs show ?thesis by simp
      next
        case 2
        with g5c valsr r2f show ?thesis by simp
      qed
    qed
    have tl5: "length (trieBuffer r) \<le> length (trieBuffer r5)" using tl3 f5 by simp
    have inv5: "repo_inv r5"
      unfolding repo_inv_def using so5 init tl5 ti5 f5(2) by auto
    have q4: "?c < count r5" using f5 by simp
    have q5: "get r5 ?c = pad ?N raw" using g5c unfolding vals_def .
    have q6: "?c \<le> count r5" "count r5 \<le> ?c + 1" using f5 by simp_all
    have q8: "\<forall>j<?c. get r5 j = get r j" using g5o r2g' by simp
    have q9: "count r5 = ?c + 1 \<longrightarrow> ?c = ?c" by simp
    have q11: "permCapacity r \<le> permCapacity r5" using r2c f5 by simp
    show ?thesis
      apply (rule exI[of _ ?c], rule exI[of _ r5])
      apply (intro conjI)
                apply (rule res)
               apply (rule inv5)
              apply (rule f5(1))
             apply (rule q4)
            apply (rule q5)
           apply (rule q6(1))
          apply (rule q6(2))
         apply (rule q8)
        apply (rule q9)
       apply (rule tl5)
      apply (rule q11)
      done
  qed
qed

lemma repo_inv_unique:
  assumes "repo_inv r" "i < count r" "j < count r" "get r i = get r j"
  shows "i = j"
proof -
  from assms(1) obtain m pathOf where ti: "trie_ids r m pathOf (count r) (get r)"
    unfolding repo_inv_def by blast
  then have inj: "inj_on pathOf {..<m}"
    and idl: "\<forall>i<count r. \<exists>k<m. pathOf k = get r i \<and> trieBuffer r ! (k * trieNodeSize r) = int i"
    unfolding trie_ids_def trie_struct_def by blast+
  from idl assms(2) obtain k1 where k1: "k1 < m" "pathOf k1 = get r i"
    "trieBuffer r ! (k1 * trieNodeSize r) = int i" by blast
  from idl assms(3) obtain k2 where k2: "k2 < m" "pathOf k2 = get r j"
    "trieBuffer r ! (k2 * trieNodeSize r) = int j" by blast
  have "pathOf k1 = pathOf k2" using k1 k2 assms(4) by simp
  from inj_onD[OF inj this] k1(1) k2(1) have "k1 = k2" by simp
  with k1 k2 show ?thesis by simp
qed

lemma pad_id: "length xs = N \<Longrightarrow> pad N xs = xs"
  by (rule nth_equalityI) (simp_all add: pad_nth)

lemma pad_inj:
  assumes "pad N' a = pad N' b" "length a = N" "length b = N" "N \<le> N'"
  shows "a = b"
proof (rule nth_equalityI)
  show "length a = length b" using assms by simp
next
  fix k assume k: "k < length a"
  then have "k < N'" using assms by simp
  from pad_nth[OF this, of a] pad_nth[OF this, of b] assms k show "a ! k = b ! k" by simp
qed

lemma migratePerm_alt:
  "migratePerm old N N' i buf =
     fold (\<lambda>k b. b[i * N' + k := int k]) [N..<N']
       (fold (\<lambda>k b. b[i * N' + k := toInt32 (ta_get old (Some (int (i * N + k))))]) [0..<N] buf)"
  unfolding migratePerm_def Let_def ta_set_nat toInt32_simps ..

lemma migratePerm_length [simp]: "length (migratePerm old N N' i buf) = length buf"
  unfolding migratePerm_alt by simp

lemma migratePerm_nth:
  assumes "j < length buf"
  shows "migratePerm old N N' i buf ! j =
     (if i * N' + N \<le> j \<and> j < i * N' + N' then int (j - i * N')
      else if i * N' \<le> j \<and> j < i * N' + N
           then toInt32 (ta_get old (Some (int (i * N + (j - i * N')))))
           else buf ! j)"
proof -
  let ?b1 = "fold (\<lambda>k b. b[i * N' + k := toInt32 (ta_get old (Some (int (i * N + k))))]) [0..<N] buf"
  have "j < length ?b1" using assms by simp
  from fold_upd_nth[OF this, of "i * N'" "\<lambda>k. int k" N N']
       fold_upd_nth[OF assms, of "i * N'" "\<lambda>k. toInt32 (ta_get old (Some (int (i * N + k))))" 0 N]
  show ?thesis unfolding migratePerm_alt by simp
qed

lemma migrate_all:
  assumes NN: "N \<le> N'" and n: "n \<le> cap" and lo: "length old = cap * N"
    and lb: "length buf0 = cap * N'"
  shows "length (fold (migratePerm old N N') [0..<n] buf0) = cap * N'
       \<and> (\<forall>i<n. \<forall>k<N'. fold (migratePerm old N N') [0..<n] buf0 ! (i * N' + k)
                          = (if k < N then old ! (i * N + k) else int k))"
  using n
proof (induction n)
  case 0
  then show ?case using lb by simp
next
  case (Suc n)
  let ?bn = "fold (migratePerm old N N') [0..<n] buf0"
  from Suc have IH: "length ?bn = cap * N'"
    "\<forall>i<n. \<forall>k<N'. ?bn ! (i * N' + k) = (if k < N then old ! (i * N + k) else int k)"
    and ncap: "n < cap" by simp_all
  have e: "fold (migratePerm old N N') [0..<Suc n] buf0 = migratePerm old N N' n ?bn" by simp
  have "\<forall>i<Suc n. \<forall>k<N'. migratePerm old N N' n ?bn ! (i * N' + k)
                          = (if k < N then old ! (i * N + k) else int k)"
  proof (intro allI impI)
    fix i k assume i: "i < Suc n" and k: "k < N'"
    have icap: "i < cap" using i ncap by simp
    have j: "i * N' + k < length ?bn" using block_index_bound[OF icap k] IH(1) by simp
    show "migratePerm old N N' n ?bn ! (i * N' + k) = (if k < N then old ! (i * N + k) else int k)"
    proof (cases "i = n")
      case True
      show ?thesis
      proof (cases "k < N")
        case kN: True
        have "n * N + k < length old" using block_index_bound[OF ncap kN] lo by simp
        then have "toInt32 (ta_get old (Some (int (n * N + k)))) = old ! (n * N + k)"
          unfolding ta_get_nat by simp
        then show ?thesis using migratePerm_nth[OF j, where old=old and N=N and N'=N' and i=n] True kN k by simp
      next
        case False
        then show ?thesis using migratePerm_nth[OF j, where old=old and N=N and N'=N' and i=n] True k by simp
      qed
    next
      case False
      with i have "i < n" by simp
      then have "i * N' + k < n * N'" using block_index_bound[OF _ k] by simp
      then show ?thesis using migratePerm_nth[OF j, where old=old and N=N and N'=N' and i=n] IH(2) \<open>i < n\<close> k by simp
    qed
  qed
  then show ?case unfolding e using IH(1) by simp
qed

lemma allocateNode_frame:
  "permBuffer (snd (allocateNode r)) = permBuffer r"
  "globalDegree (snd (allocateNode r)) = globalDegree r"
  "count (snd (allocateNode r)) = count r"
  "permCapacity (snd (allocateNode r)) = permCapacity r"
  "trieNodeSize (snd (allocateNode r)) = trieNodeSize r"
  unfolding allocateNode_def Let_def expandTrieBuffer_def by simp_all

lemma trieStep_frame: "permBuffer (snd (trieStep v s)) = permBuffer (snd s)"
proof (cases s)
  case (Pair cur r)
  show ?thesis
    unfolding Pair trieStep_def Let_def prod.case
    using allocateNode_frame(1)[of r]
    by (cases "allocateNode r") (simp split: if_splits)
qed

lemma fold_trieStep_read:
  assumes "\<forall>i\<in>set xs. off + i < length (permBuffer r)"
  shows "fold (\<lambda>i s. trieStep (ta_get (permBuffer (snd s)) (Some (int (off + i)))) s) xs (cur, r)
       = fold (\<lambda>v s. trieStep (Some v) s) (map (\<lambda>i. permBuffer r ! (off + i)) xs) (cur, r)"
  using assms
proof (induction xs arbitrary: cur r)
  case Nil
  show ?case by simp
next
  case (Cons x xs)
  let ?F = "\<lambda>i s. trieStep (ta_get (permBuffer (snd s)) (Some (int (off + i)))) s"
  let ?G = "\<lambda>v s. trieStep (Some v) s"
  have e: "ta_get (permBuffer r) (Some (int (off + x))) = Some (permBuffer r ! (off + x))"
    unfolding ta_get_nat using Cons.prems by simp
  obtain cur1 r1 where s1: "trieStep (Some (permBuffer r ! (off + x))) (cur, r) = (cur1, r1)"
    by (cases "trieStep (Some (permBuffer r ! (off + x))) (cur, r)")
  have pb1: "permBuffer r1 = permBuffer r"
    using trieStep_frame[of "Some (permBuffer r ! (off + x))" "(cur, r)"] s1 by simp
  have l: "fold ?F (x # xs) (cur, r) = fold ?F xs (cur1, r1)"
    by (simp only: fold_Cons comp_apply snd_conv e s1)
  have pre: "\<forall>i\<in>set xs. off + i < length (permBuffer r1)" using Cons.prems pb1 by simp
  have rr: "fold ?G (map (\<lambda>i. permBuffer r ! (off + i)) (x # xs)) (cur, r)
          = fold ?G (map (\<lambda>i. permBuffer r1 ! (off + i)) xs) (cur1, r1)"
    unfolding pb1 by (simp only: list.map fold_Cons comp_apply s1)
  show ?case unfolding l rr by (rule Cons.IH[OF pre])
qed

lemma get_as_map:
  assumes "length (permBuffer r) = permCapacity r * globalDegree r" "n < permCapacity r"
  shows "map (\<lambda>i. permBuffer r ! (n * globalDegree r + i)) [0..<globalDegree r] = get r n"
proof (rule nth_equalityI)
  show "length (map (\<lambda>i. permBuffer r ! (n * globalDegree r + i)) [0..<globalDegree r])
          = length (get r n)"
    using get_length[OF assms] by simp
next
  fix k assume "k < length (map (\<lambda>i. permBuffer r ! (n * globalDegree r + i)) [0..<globalDegree r])"
  then have k: "k < globalDegree r" by simp
  then show "map (\<lambda>i. permBuffer r ! (n * globalDegree r + i)) [0..<globalDegree r] ! k = get r n ! k"
    using get_nth[OF assms k] by simp
qed

lemma reinsertPerm_spec:
  assumes ti: "trie_ids r m pathOf n (get r)"
    and len: "length (permBuffer r) = permCapacity r * globalDegree r"
    and n: "n < permCapacity r"
    and rng: "in_range (globalDegree r) (get r n)"
    and fresh: "\<forall>i<n. get r i \<noteq> get r n"
  shows "\<exists>m' pathOf'. trie_ids (reinsertPerm (globalDegree r) n r) m' pathOf' (n + 1) (get r)
       \<and> same_store r (reinsertPerm (globalDegree r) n r)
       \<and> length (trieBuffer r) \<le> length (trieBuffer (reinsertPerm (globalDegree r) n r))"
proof -
  let ?N = "globalDegree r" and ?S = "trieNodeSize r"
  have rd: "\<forall>i\<in>set [0..<?N]. n * ?N + i < length (permBuffer r)"
    using block_index_bound[OF n] len by simp
  have vl: "length (get r n) = ?N" by (rule get_length[OF len n])
  from insert_spec[OF ti rng vl] obtain k' m' pathOf' r3 where
    w: "fold (\<lambda>v s. trieStep (Some v) s) (get r n) (Some 0, r) = (Some (int (k' * ?S)), r3)"
    and ss: "same_store r r3" and kl: "k' * ?S < length (trieBuffer r3)"
    and ll: "length (trieBuffer r) \<le> length (trieBuffer r3)"
    and cases: "(\<exists>i<n. trieBuffer r3 ! (k' * ?S) = int i \<and> get r i = get r n
                 \<and> trie_ids r3 m' pathOf' n (get r))
         \<or> (trieBuffer r3 ! (k' * ?S) = - 1 \<and> (\<forall>i<n. get r i \<noteq> get r n)
             \<and> (\<forall>P' (rx::repo). (\<forall>i<n. P' i = get r i) \<and> P' n = get r n
                   \<and> globalDegree rx = ?N \<and> trieNodeSize rx = ?S
                   \<and> trieFreePtr rx = trieFreePtr r3
                   \<and> trieBuffer rx = (trieBuffer r3)[k' * ?S := int n]
                 \<longrightarrow> trie_ids rx m' pathOf' (n + 1) P'))"
    by blast
  have fr: "fold (\<lambda>i s. trieStep (ta_get (permBuffer (snd s)) (Some (int (n * ?N + i)))) s)
              [0..<?N] (Some 0, r) = (Some (int (k' * ?S)), r3)"
    unfolding fold_trieStep_read[OF rd] get_as_map[OF len n] by (rule w)
  define r' where "r' = r3\<lparr>trieBuffer := (trieBuffer r3)[k' * ?S := int n]\<rparr>"
  have re: "reinsertPerm ?N n r = r'"
    unfolding reinsertPerm_def Let_def fr prod.case ta_set_nat toInt32_simps r'_def ..
  from cases fresh have upd: "\<forall>P' (rx::repo). (\<forall>i<n. P' i = get r i) \<and> P' n = get r n
                   \<and> globalDegree rx = ?N \<and> trieNodeSize rx = ?S
                   \<and> trieFreePtr rx = trieFreePtr r3
                   \<and> trieBuffer rx = (trieBuffer r3)[k' * ?S := int n]
                 \<longrightarrow> trie_ids rx m' pathOf' (n + 1) P'"
    by blast
  have f3: "globalDegree r3 = ?N" "trieNodeSize r3 = ?S" using ss unfolding same_store_def by simp_all
  have a: "trie_ids r' m' pathOf' (n + 1) (get r)"
    by (rule upd[rule_format, of "get r" r']) (simp add: r'_def f3)
  have b: "same_store r r'" using ss unfolding r'_def same_store_def by simp
  have c: "length (trieBuffer r) \<le> length (trieBuffer r')" using ll unfolding r'_def by simp
  show ?thesis
    unfolding re
    apply (rule exI[of _ m'], rule exI[of _ pathOf'])
    apply (intro conjI)
      apply (rule a)
     apply (rule b)
    apply (rule c)
    done
qed

lemma same_store_get: "same_store r r' \<Longrightarrow> get r' = get r"
  by (rule ext) (simp add: get_def same_store_def)

lemma reinsert_all:
  assumes ti: "trie_ids r3 m0 p0 0 (get r3)"
    and len: "length (permBuffer r3) = permCapacity r3 * globalDegree r3"
    and n: "n \<le> c" "c \<le> permCapacity r3"
    and rng: "\<forall>i<c. in_range (globalDegree r3) (get r3 i)"
    and dist: "\<forall>i<c. \<forall>j<c. get r3 i = get r3 j \<longrightarrow> i = j"
  shows "\<exists>m p. trie_ids (fold (reinsertPerm (globalDegree r3)) [0..<n] r3) m p n (get r3)
       \<and> same_store r3 (fold (reinsertPerm (globalDegree r3)) [0..<n] r3)
       \<and> length (trieBuffer r3) \<le> length (trieBuffer (fold (reinsertPerm (globalDegree r3)) [0..<n] r3))"
  using n(1)
proof (induction n)
  case 0
  show ?case
    apply (rule exI[of _ m0], rule exI[of _ p0])
    using ti by simp
next
  case (Suc n)
  let ?N = "globalDegree r3"
  let ?rn = "fold (reinsertPerm ?N) [0..<n] r3"
  from Suc obtain m p where tin: "trie_ids ?rn m p n (get r3)" and ssn: "same_store r3 ?rn"
    and lln: "length (trieBuffer r3) \<le> length (trieBuffer ?rn)" and nc: "n < c"
    by auto
  have fn: "globalDegree ?rn = ?N" "permCapacity ?rn = permCapacity r3"
    "permBuffer ?rn = permBuffer r3"
    using ssn unfolding same_store_def by simp_all
  have gn: "get ?rn = get r3" by (rule same_store_get[OF ssn])
  have e: "fold (reinsertPerm ?N) [0..<Suc n] r3 = reinsertPerm (globalDegree ?rn) n ?rn"
    unfolding fn by simp
  have pre1: "trie_ids ?rn m p n (get ?rn)" using tin gn by simp
  have pre2: "length (permBuffer ?rn) = permCapacity ?rn * globalDegree ?rn" using len fn by simp
  have pre3: "n < permCapacity ?rn" using nc n(2) fn by simp
  have pre4: "in_range (globalDegree ?rn) (get ?rn n)" using rng nc fn gn by simp
  have pre5: "\<forall>i<n. get ?rn i \<noteq> get ?rn n"
  proof (intro allI impI notI)
    fix i assume "i < n" "get ?rn i = get ?rn n"
    with dist nc gn have "i = n" by simp
    with \<open>i < n\<close> show False by simp
  qed
  from reinsertPerm_spec[OF pre1 pre2 pre3 pre4 pre5] obtain m' p' where
    a: "trie_ids (reinsertPerm (globalDegree ?rn) n ?rn) m' p' (n + 1) (get ?rn)"
    and b: "same_store ?rn (reinsertPerm (globalDegree ?rn) n ?rn)"
    and c: "length (trieBuffer ?rn) \<le> length (trieBuffer (reinsertPerm (globalDegree ?rn) n ?rn))"
    by blast
  show ?case
    unfolding e
    apply (rule exI[of _ m'], rule exI[of _ p'])
    apply (intro conjI)
    using a gn apply simp
    using same_store_trans[OF ssn b] apply simp
    using lln c apply simp
    done
qed

lemma in_range_pad_mono:
  assumes "in_range N xs" "N \<le> N'"
  shows "in_range N' (pad N' xs)"
  unfolding in_range_def
proof
  fix v assume "v \<in> set (pad N' xs)"
  then obtain i where i: "i < N'" "v = (if i < length xs then xs ! i else int i)"
    unfolding pad_def by auto
  show "0 \<le> v \<and> v < int N'"
  proof (cases "i < length xs")
    case True
    then have "xs ! i \<in> set xs" by simp
    with assms i True show ?thesis unfolding in_range_def by fastforce
  next
    case False
    with i show ?thesis by simp
  qed
qed

lemma upgradeDegree_spec:
  assumes inv: "repo_inv r" and NN: "globalDegree r < N'"
    and fit: "N' + 1 \<le> 2 * length (trieBuffer r)"
  shows "repo_inv (upgradeDegree r N') \<and> globalDegree (upgradeDegree r N') = N'
       \<and> count (upgradeDegree r N') = count r
       \<and> (\<forall>i<count r. get (upgradeDegree r N') i = pad N' (get r i))
       \<and> permCapacity (upgradeDegree r N') = permCapacity r
       \<and> length (trieBuffer r) \<le> length (trieBuffer (upgradeDegree r N'))"
proof -
  let ?N = "globalDegree r" and ?c = "count r" and ?cap = "permCapacity r"
  from inv have so: "store_ok r" and init: "INITIAL_TRIE_SLOTS \<le> length (trieBuffer r)"
    unfolding repo_inv_def by blast+
  from so have cap: "0 < ?cap" "?c \<le> ?cap"
    and len: "length (permBuffer r) = ?cap * ?N"
    and rngs: "\<forall>i<?c. in_range ?N (get r i)"
    unfolding store_ok_def by blast+
  define pb2 where "pb2 = fold (migratePerm (permBuffer r) ?N N') [0..<?c] (replicate (?cap * N') 0)"
  define r2 where "r2 = r\<lparr>globalDegree := N', trieNodeSize := N' + 1, permBuffer := pb2,
                          trieFreePtr := 0\<rparr>"
  have ud: "upgradeDegree r N' = fold (reinsertPerm N') [0..<?c] (snd (allocateNode r2))"
    unfolding upgradeDegree_def Let_def r2_def pb2_def by simp
  have NN': "?N \<le> N'" using NN by simp
  have lrep: "length (replicate (?cap * N') (0::int)) = ?cap * N'" by simp
  from migrate_all[OF NN' cap(2) len lrep]
  have lpb2: "length pb2 = ?cap * N'"
    and npb2: "\<forall>i<?c. \<forall>k<N'. pb2 ! (i * N' + k)
                 = (if k < ?N then permBuffer r ! (i * ?N + k) else int k)"
    unfolding pb2_def by blast+
  have f2: "globalDegree r2 = N'" "count r2 = ?c" "permCapacity r2 = ?cap" "permBuffer r2 = pb2"
    "trieNodeSize r2 = N' + 1" "trieFreePtr r2 = 0" "trieBuffer r2 = trieBuffer r"
    unfolding r2_def by simp_all
  have len2: "length (permBuffer r2) = permCapacity r2 * globalDegree r2" using lpb2 f2 by simp
  have g2: "get r2 i = pad N' (get r i)" if i: "i < ?c" for i
  proof (rule nth_equalityI)
    have ic: "i < permCapacity r2" using i cap f2 by simp
    show "length (get r2 i) = length (pad N' (get r i))"
      using get_length[OF len2 ic] f2 by simp
    fix k assume "k < length (get r2 i)"
    then have k: "k < N'" using get_length[OF len2 ic] f2 by simp
    have icap: "i < ?cap" using i cap by simp
    have a: "get r2 i ! k = pb2 ! (i * N' + k)"
      using get_nth[OF len2 ic, of k] k f2 by simp
    have b: "pad N' (get r i) ! k = (if k < ?N then permBuffer r ! (i * ?N + k) else int k)"
      using pad_nth[OF k, of "get r i"] get_length[OF len icap] get_nth[OF len icap, of k] by simp
    show "get r2 i ! k = pad N' (get r i) ! k"
      using a b npb2 i k by simp
  qed
  have fit2: "trieFreePtr r2 + trieNodeSize r2 \<le> 2 * length (trieBuffer r2)"
    using fit f2 by simp
  from allocateNode_spec[OF fit2] obtain r3 where
    al: "allocateNode r2 = (trieFreePtr r2, r3)" and ss3: "same_store r2 r3"
    and F3: "trieFreePtr r3 = trieFreePtr r2 + trieNodeSize r2"
    and F3len: "trieFreePtr r3 \<le> length (trieBuffer r3)"
    and len3: "length (trieBuffer r2) \<le> length (trieBuffer r3)"
    and new3: "\<forall>j. trieFreePtr r2 \<le> j \<and> j < trieFreePtr r2 + trieNodeSize r2
                 \<longrightarrow> trieBuffer r3 ! j = - 1"
    by blast
  have f3: "globalDegree r3 = N'" "count r3 = ?c" "permCapacity r3 = ?cap" "permBuffer r3 = pb2"
    "trieNodeSize r3 = N' + 1" "trieFreePtr r3 = N' + 1"
    using ss3 f2 F3 unfolding same_store_def by simp_all
  have g3: "get r3 = get r2" by (rule same_store_get[OF ss3])
  have ts3: "trie_struct r3 1 (\<lambda>_. [])"
    unfolding trie_struct_def f3
  proof (intro conjI allI impI)
    show "N' + 1 \<le> length (trieBuffer r3)" "N' + 1 \<le> length (trieBuffer r3)"
      using F3len f3 by simp_all
    show "inj_on (\<lambda>_. []::int list) {..<1::nat}" by (simp add: inj_on_def)
    show "in_range N' []" by (simp add: in_range_def)
  next
    fix k :: nat and c :: int
    assume k: "k < 1" and c: "0 \<le> c \<and> c < int N'"
    have "1 + nat c < N' + 1" using c by linarith
    then have "trieBuffer r3 ! (1 + nat c) = - 1" using new3 f2 by simp
    then have "node_slot r3 k c = - 1" using k unfolding node_slot_def f3 by simp
    then show "node_slot r3 k c = - 1 \<and> (\<forall>j<1. [] \<noteq> [] @ [c])
        \<or> (\<exists>j<1. node_slot r3 k c = int (j * (N' + 1)) \<and> [] = [] @ [c])"
      by simp
  qed simp_all
  have N'0: "N' \<noteq> 0" using NN by simp
  have ti3: "trie_ids r3 1 (\<lambda>_. []) 0 (get r3)"
    unfolding trie_ids_def using ts3 f3 N'0 by simp
  have len3': "length (permBuffer r3) = permCapacity r3 * globalDegree r3" using lpb2 f3 by simp
  have cc: "?c \<le> ?c" "?c \<le> permCapacity r3" using cap f3 by simp_all
  have rng3: "\<forall>i<?c. in_range (globalDegree r3) (get r3 i)"
    using g2 g3 rngs in_range_pad_mono[OF _ NN'] f3 by simp
  have dist3: "\<forall>i<?c. \<forall>j<?c. get r3 i = get r3 j \<longrightarrow> i = j"
  proof (intro allI impI)
    fix i j assume i: "i < ?c" and j: "j < ?c" and e: "get r3 i = get r3 j"
    then have "pad N' (get r i) = pad N' (get r j)" using g2 g3 by simp
    from pad_inj[OF this _ _ NN'] get_length[OF len] i j cap
    have "get r i = get r j" by simp
    from repo_inv_unique[OF inv i j this] show "i = j" .
  qed
  let ?r' = "fold (reinsertPerm (globalDegree r3)) [0..<?c] r3"
  from reinsert_all[OF ti3 len3' cc rng3 dist3] obtain m p where
    ti': "trie_ids ?r' m p ?c (get r3)" and ss': "same_store r3 ?r'"
    and ll': "length (trieBuffer r3) \<le> length (trieBuffer ?r')"
    by blast
  have ud': "upgradeDegree r N' = ?r'" unfolding ud al f3 by simp
  have f': "globalDegree ?r' = N'" "count ?r' = ?c" "permCapacity ?r' = ?cap"
    "permBuffer ?r' = pb2"
    using ss' f3 unfolding same_store_def by simp_all
  have g': "get ?r' = get r3" by (rule same_store_get[OF ss'])
  have so': "store_ok ?r'"
    unfolding store_ok_def f' g' using cap lpb2 rng3 f3 by simp
  have tl: "length (trieBuffer r) \<le> length (trieBuffer ?r')" using len3 ll' f2 by simp
  have inv': "repo_inv ?r'"
    unfolding repo_inv_def using so' init tl ti' f' g' by auto
  have gg: "\<forall>i<?c. get ?r' i = pad N' (get r i)" using g' g3 g2 by simp
  show ?thesis
    unfolding ud' using inv' f' gg tl by simp
qed

lemma register_upgrade_eq:
  assumes "length raw > globalDegree r"
    and "globalDegree (upgradeDegree r (length raw)) = length raw"
  shows "register r raw = register (upgradeDegree r (length raw)) raw"
  unfolding register_def Let_def using assms by simp

lemma register_spec:
  assumes inv: "repo_inv r"
    and rng: "in_range (max (globalDegree r) (length raw)) raw"
    and fit: "length raw \<le> globalDegree r \<or> length raw < 2 * INITIAL_TRIE_SLOTS"
  shows "\<exists>i r'. register r raw = (Some (int i), r') \<and> repo_inv r'
          \<and> globalDegree r' = max (globalDegree r) (length raw)
          \<and> i < count r' \<and> get r' i = pad (max (globalDegree r) (length raw)) raw
          \<and> count r \<le> count r' \<and> count r' \<le> count r + 1
          \<and> (\<forall>j<count r. get r' j = pad (max (globalDegree r) (length raw)) (get r j))
          \<and> (count r' = count r + 1 \<longrightarrow> i = count r)
          \<and> length (trieBuffer r) \<le> length (trieBuffer r')
          \<and> permCapacity r \<le> permCapacity r'"
proof (cases "length raw \<le> globalDegree r")
  case True
  then have mx: "max (globalDegree r) (length raw) = globalDegree r" by simp
  from inv have so: "store_ok r" unfolding repo_inv_def by blast
  have pid: "\<forall>j<count r. pad (globalDegree r) (get r j) = get r j"
  proof (intro allI impI)
    fix j assume "j < count r"
    then have "length (get r j) = globalDegree r"
      using so get_length[of r j] unfolding store_ok_def by simp
    then show "pad (globalDegree r) (get r j) = get r j" by (rule pad_id)
  qed
  from register_noupgrade[OF inv True] rng mx obtain i r' where
    a: "register r raw = (Some (int i), r')" "repo_inv r'" "globalDegree r' = globalDegree r"
      "i < count r'" "get r' i = pad (globalDegree r) raw" "count r \<le> count r'"
      "count r' \<le> count r + 1" "\<forall>j<count r. get r' j = get r j"
      "count r' = count r + 1 \<longrightarrow> i = count r"
      "length (trieBuffer r) \<le> length (trieBuffer r')" "permCapacity r \<le> permCapacity r'"
    by auto
  have a8: "\<forall>j<count r. get r' j = pad (globalDegree r) (get r j)" using a(8) pid by simp
  show ?thesis
    unfolding mx
    apply (rule exI[of _ i], rule exI[of _ r'])
    apply (intro conjI)
              apply (rule a(1))
             apply (rule a(2))
            apply (rule a(3))
           apply (rule a(4))
          apply (rule a(5))
         apply (rule a(6))
        apply (rule a(7))
       apply (rule a8)
      apply (rule a(9))
     apply (rule a(10))
    apply (rule a(11))
    done
next
  case False
  let ?L = "length raw"
  from False have lt: "globalDegree r < ?L" and mx: "max (globalDegree r) ?L = ?L" by simp_all
  from inv have init: "INITIAL_TRIE_SLOTS \<le> length (trieBuffer r)" unfolding repo_inv_def by blast
  have fit': "?L + 1 \<le> 2 * length (trieBuffer r)" using fit False init by simp
  let ?u = "upgradeDegree r ?L"
  from upgradeDegree_spec[OF inv lt fit']
  have u: "repo_inv ?u" "globalDegree ?u = ?L" "count ?u = count r"
    "\<forall>i<count r. get ?u i = pad ?L (get r i)" "permCapacity ?u = permCapacity r"
    "length (trieBuffer r) \<le> length (trieBuffer ?u)"
    by blast+
  have e: "register r raw = register ?u raw" by (rule register_upgrade_eq[OF lt u(2)])
  have L': "?L \<le> globalDegree ?u" using u(2) by simp
  have rng': "in_range (globalDegree ?u) raw" using rng mx u(2) by simp
  from register_noupgrade[OF u(1) L' rng'] obtain i r' where
    a: "register ?u raw = (Some (int i), r')" "repo_inv r'" "globalDegree r' = globalDegree ?u"
      "i < count r'" "get r' i = pad (globalDegree ?u) raw" "count ?u \<le> count r'"
      "count r' \<le> count ?u + 1" "\<forall>j<count ?u. get r' j = get ?u j"
      "count r' = count ?u + 1 \<longrightarrow> i = count ?u"
      "length (trieBuffer ?u) \<le> length (trieBuffer r')" "permCapacity ?u \<le> permCapacity r'"
    by auto
  have b3: "globalDegree r' = ?L" using a(3) u(2) by simp
  have b5: "get r' i = pad ?L raw" using a(5) u(2) by simp
  have b6: "count r \<le> count r'" "count r' \<le> count r + 1" using a(6,7) u(3) by simp_all
  have b8: "\<forall>j<count r. get r' j = pad ?L (get r j)" using a(8) u(3,4) by simp
  have b9: "count r' = count r + 1 \<longrightarrow> i = count r" using a(9) u(3) by simp
  have b10: "length (trieBuffer r) \<le> length (trieBuffer r')" using a(10) u(6) by simp
  have b11: "permCapacity r \<le> permCapacity r'" using a(11) u(5) by simp
  show ?thesis
    unfolding mx e
    apply (rule exI[of _ i], rule exI[of _ r'])
    apply (intro conjI)
              apply (rule a(1))
             apply (rule a(2))
            apply (rule b3)
           apply (rule a(4))
          apply (rule b5)
         apply (rule b6(1))
        apply (rule b6(2))
       apply (rule b8)
      apply (rule b9)
     apply (rule b10)
    apply (rule b11)
    done
qed

lemma new_repo_ok:
  assumes d: "0 < d" "d < 2 * INITIAL_TRIE_SLOTS" and c: "0 < c"
  shows "\<exists>r. new_repo d c = Inr r \<and> repo_inv r \<and> globalDegree r = d \<and> count r = 1
            \<and> get r 0 = map int [0..<d]"
proof -
  define r0 where "r0 = \<lparr>globalDegree = d, count = 0, permCapacity = c,
                permBuffer = replicate (c * d) 0, trieNodeSize = d + 1,
                trieBuffer = replicate INITIAL_TRIE_SLOTS 0, trieFreePtr = 0\<rparr>"
  have f0: "globalDegree r0 = d" "count r0 = 0" "permCapacity r0 = c"
    "permBuffer r0 = replicate (c * d) 0" "trieNodeSize r0 = d + 1"
    "trieBuffer r0 = replicate INITIAL_TRIE_SLOTS 0" "trieFreePtr r0 = 0"
    unfolding r0_def by simp_all
  have fit: "trieFreePtr r0 + trieNodeSize r0 \<le> 2 * length (trieBuffer r0)"
    using d f0 by simp
  from allocateNode_spec[OF fit] obtain r1 where
    al: "allocateNode r0 = (trieFreePtr r0, r1)" and ss1: "same_store r0 r1"
    and F1: "trieFreePtr r1 = trieFreePtr r0 + trieNodeSize r0"
    and F1len: "trieFreePtr r1 \<le> length (trieBuffer r1)"
    and len1: "length (trieBuffer r0) \<le> length (trieBuffer r1)"
    and new1: "\<forall>j. trieFreePtr r0 \<le> j \<and> j < trieFreePtr r0 + trieNodeSize r0
                 \<longrightarrow> trieBuffer r1 ! j = - 1"
    by blast
  have f1: "globalDegree r1 = d" "count r1 = 0" "permCapacity r1 = c"
    "permBuffer r1 = replicate (c * d) 0" "trieNodeSize r1 = d + 1" "trieFreePtr r1 = d + 1"
    using ss1 f0 F1 unfolding same_store_def by simp_all
  have ts1: "trie_struct r1 1 (\<lambda>_. [])"
    unfolding trie_struct_def f1
  proof (intro conjI allI impI)
    show "d + 1 \<le> length (trieBuffer r1)" "d + 1 \<le> length (trieBuffer r1)"
      using F1len f1 by simp_all
    show "inj_on (\<lambda>_. []::int list) {..<1::nat}" by (simp add: inj_on_def)
    show "in_range d []" by (simp add: in_range_def)
  next
    fix k :: nat and x :: int
    assume k: "k < 1" and x: "0 \<le> x \<and> x < int d"
    have "1 + nat x < d + 1" using x by linarith
    then have "trieBuffer r1 ! (1 + nat x) = - 1" using new1 f0 by simp
    then have "node_slot r1 k x = - 1" using k unfolding node_slot_def f1 by simp
    then show "node_slot r1 k x = - 1 \<and> (\<forall>j<1. [] \<noteq> [] @ [x])
        \<or> (\<exists>j<1. node_slot r1 k x = int (j * (d + 1)) \<and> [] = [] @ [x])"
      by simp
  qed simp_all
  have d0: "d \<noteq> 0" using d by simp
  have ti1: "trie_ids r1 1 (\<lambda>_. []) (count r1) (get r1)"
    unfolding trie_ids_def using ts1 f1 d0 by simp
  have so1: "store_ok r1" unfolding store_ok_def f1 using c by simp
  have inv1: "repo_inv r1"
    unfolding repo_inv_def using so1 ti1 len1 f0 by auto
  have L: "length ([]::int list) \<le> globalDegree r1" by simp
  have rng: "in_range (globalDegree r1) []" by (simp add: in_range_def)
  from register_noupgrade[OF inv1 L rng] obtain i r2 where
    a: "register r1 [] = (Some (int i), r2)" "repo_inv r2" "globalDegree r2 = globalDegree r1"
      "i < count r2" "get r2 i = pad (globalDegree r1) []" "count r1 \<le> count r2"
      "count r2 \<le> count r1 + 1"
    by blast
  have i0: "i = 0" "count r2 = 1" using a(4,7) f1 by simp_all
  have nr: "new_repo d c = Inr r2"
    unfolding new_repo_def Let_def r0_def[symmetric] al snd_conv a(1) prod.case i0 by simp
  have g: "get r2 0 = map int [0..<d]" using a(5) i0 f1 unfolding pad_def by simp
  show ?thesis
    using nr a(2,3) f1 i0 g by simp
qed

section \<open>Concrete states used in examples\<close>

text \<open>The module state right after loading: \<open>globalRepo = new PermutationRepository()\<close> with
  the default degree 4 and capacity 1024, and a composition buffer of 1024 cells.\<close>

definition initial_heap :: heap where
  "initial_heap = \<lparr>globalRepo = projr (new_repo 4 1024), tempCompositionBuffer = replicate 1024 0\<rparr>"

text \<open>The state after \<open>globalRepo.register([1, 2, 0])\<close>.\<close>

definition heap_with_cycle :: heap where
  "heap_with_cycle = initial_heap\<lparr>globalRepo := snd (register (globalRepo initial_heap) [1, 2, 0])\<rparr>"

text \<open>An instance of the chain parameter for examples: a chain is represented by its order, has
  no generators, and contains the identity only.\<close>

definition order_ssa_ops :: "nat ssa_ops" where
  "order_ssa_ops =
     \<lparr>ssa_compute = (\<lambda>h p. (1, h)),
      ssa_order = (\<lambda>n. n),
      ssa_generators = (\<lambda>n. []),
      ssa_contains = (\<lambda>n h g. (g = Some 0, h)),
      ssa_getGeneratorsAsPermutationSet = (\<lambda>n h. (PermutationSet [] False False, h))\<rparr>"

section \<open>The isGroup flag short-circuits generateGroup\<close>

text \<open>
  Claim C9. \<open>generateGroup\<close> trusts the flag: for every permutation set whose \<open>isGroup\<close> flag
  is true it returns that very set, and the heap is untouched (no product, inverse or
  registration is computed), whatever the members of the set are.
\<close>

theorem generateGroup_trusts_isGroup:
  "isGroup G \<Longrightarrow> generateGroup ops h (ArgSet G) = Some (Inr (G, h))"
  by (simp add: generateGroup_def generateGroupSet_def)

theorem generateGroup_trusts_isGroup_witness:
  "isGroup \<lparr>ids = [1], isGroup = True\<rparr>
   \<and> generateGroup order_ssa_ops heap_with_cycle (ArgSet \<lparr>ids = [1], isGroup = True\<rparr>)
       = Some (Inr (\<lparr>ids = [1], isGroup = True\<rparr>, heap_with_cycle))"
  using generateGroup_trusts_isGroup[of "\<lparr>ids = [1], isGroup = True\<rparr>" order_ssa_ops heap_with_cycle]
  by simp

section \<open>Right coset decomposition: the only check is on sizes\<close>









section \<open>Quotient structure: preconditions and the first representative\<close>

lemma extendByGens_prefix:
  "extendByGens ops ssaN k currRep gens (h, reps) = Inr (h', reps') \<Longrightarrow> \<exists>ys. reps' = reps @ ys"
proof (induction gens arbitrary: h reps)
  case Nil
  then show ?case by simp
next
  case (Cons gen gens)
  obtain candidate r1 where m: "multiply (globalRepo h) currRep (Some gen) = (candidate, r1)"
    by (cases "multiply (globalRepo h) currRep (Some gen)")
  obtain fi h1 where f: "findCoset ops ssaN candidate reps 0 (h\<lparr>globalRepo := r1\<rparr>) = (fi, h1)"
    by (cases "findCoset ops ssaN candidate reps 0 (h\<lparr>globalRepo := r1\<rparr>)")
  show ?case
  proof (cases fi)
    case None
    with Cons.prems m f
    have "extendByGens ops ssaN k currRep gens (h1, reps @ [candidate]) = Inr (h', reps')"
      by (auto split: if_splits)
    from Cons.IH[OF this] show ?thesis by auto
  next
    case (Some i)
    with Cons.prems m f have "extendByGens ops ssaN k currRep gens (h1, reps) = Inr (h', reps')"
      by simp
    from Cons.IH[OF this] show ?thesis .
  qed
qed

lemma cosetBFS_prefix:
  "cosetBFS ops ssaN k gGens h reps head = Inr (h', reps') \<Longrightarrow> \<exists>ys. reps' = reps @ ys"
proof (induction ops ssaN k gGens h reps head rule: cosetBFS.induct)
  case (1 ops ssaN k gGens h cosetReps head)
  note unf = cosetBFS.simps[of ops ssaN k gGens h cosetReps head]
  show ?case
  proof (cases "head < length cosetReps")
    case False
    with "1.prems" unf have "reps' = cosetReps" by simp
    then show ?thesis by simp
  next
    case True
    show ?thesis
    proof (cases "extendByGens ops ssaN k (cosetReps ! head) gGens (h, cosetReps)")
      case (Inl e)
      with True "1.prems" unf have False by simp
      then show ?thesis ..
    next
      case (Inr b)
      obtain h1 reps1 where b: "b = (h1, reps1)" by (cases b)
      have rec: "cosetBFS ops ssaN k gGens h1 reps1 (head + 1) = Inr (h', reps')"
        using "1.prems" unfolding unf using True Inr b by simp
      have ex: "extendByGens ops ssaN k (cosetReps ! head) gGens (h, cosetReps) = Inr (h1, reps1)"
        using Inr b by simp
      from "1.IH"[OF True Inr b[symmetric] rec] obtain ys where ys: "reps' = reps1 @ ys" ..
      from extendByGens_prefix[OF ex] obtain zs where zs: "reps1 = cosetReps @ zs" ..
      from ys zs show ?thesis by simp
    qed
  qed
qed

text \<open>
  Claim C7. With the chains of \<open>G\<close> and \<open>N\<close> at hand, \<open>getQuotientStructure\<close> raises an error
  when the order of \<open>N\<close> does not divide the order of \<open>G\<close>, raises an error when the index
  \<open>|G| / |N|\<close> exceeds \<open>maxIndex\<close>, and every table of representatives it returns starts with
  the identity ID 0.
\<close>

theorem getQuotientStructure_preconditions:
  assumes "ensureSSA ops h groupG = Inr (ssaG, h1)"
    and "ensureSSA ops h1 normalN = Inr (ssaN, h2)"
  shows "(\<not> ssa_order ops ssaN dvd ssa_order ops ssaG \<longrightarrow>
            (\<exists>e. getQuotientStructure ops h groupG normalN maxIndex = Some (Inl e)))
       \<and> (int (ssa_order ops ssaG div ssa_order ops ssaN) > maxIndex \<longrightarrow>
            (\<exists>e. getQuotientStructure ops h groupG normalN maxIndex = Some (Inl e)))
       \<and> (\<forall>q h'. getQuotientStructure ops h groupG normalN maxIndex = Some (Inr (q, h')) \<longrightarrow>
            qm_representatives q \<noteq> [] \<and> qm_representatives q ! 0 = 0)"
proof -
  let ?k = "ssa_order ops ssaG div ssa_order ops ssaN"
  let ?gs = "ids (ensureGensSSA ops ssaG)"
  let ?res = "getQuotientStructure ops h groupG normalN maxIndex"
  have unf: "?res =
     (if ssa_order ops ssaN = 0 then Some (Inl BigIntDivisionByZero)
      else if ssa_order ops ssaG mod ssa_order ops ssaN \<noteq> 0 then Some (Inl NMustDivideG)
      else if int ?k > maxIndex then Some (Inl (QuotientIndexTooLarge ?k))
      else (case cosetBFS ops ssaN ?k ?gs h2 [Some 0] 0 of
              Inl e \<Rightarrow> Some (Inl e)
            | Inr (h3, cosetReps) \<Rightarrow>
                (case quotientGens ops ssaN ?k cosetReps ?gs (h3, replicate ?k 0, []) of
                   Inl e \<Rightarrow> Some (Inl e)
                 | Inr (h4, tempArr, quotientGenIds) \<Rightarrow>
                     (case generateGroup ops h4
                             (ArgSet (PermutationSet (map toInt32 quotientGenIds) False False)) of
                        None \<Rightarrow> None
                      | Some (Inl e) \<Rightarrow> Some (Inl e)
                      | Some (Inr (qGroup, h5)) \<Rightarrow>
                          Some (Inr (\<lparr>qm_group = qGroup,
                                      qm_representatives = map toInt32 cosetReps,
                                      qm_size = ?k\<rparr>, h5))))))"
    by (simp add: getQuotientStructure_def assms Let_def
             split: sum.splits prod.splits option.splits)
  have p1: "\<not> ssa_order ops ssaN dvd ssa_order ops ssaG \<longrightarrow> (\<exists>e. ?res = Some (Inl e))"
  proof
    assume "\<not> ssa_order ops ssaN dvd ssa_order ops ssaG"
    then have "ssa_order ops ssaN = 0 \<or> ssa_order ops ssaG mod ssa_order ops ssaN \<noteq> 0"
      by (auto simp: dvd_eq_mod_eq_0)
    then show "\<exists>e. ?res = Some (Inl e)"
      by (subst unf) auto
  qed
  have p2: "int ?k > maxIndex \<longrightarrow> (\<exists>e. ?res = Some (Inl e))"
    by (subst unf) simp
  have p3: "\<forall>q h'. ?res = Some (Inr (q, h')) \<longrightarrow>
              qm_representatives q \<noteq> [] \<and> qm_representatives q ! 0 = 0"
  proof (intro allI impI)
    fix q h'
    assume ok: "?res = Some (Inr (q, h'))"
    have c1: "ssa_order ops ssaN \<noteq> 0" "ssa_order ops ssaG mod ssa_order ops ssaN = 0"
             "\<not> int ?k > maxIndex"
      using ok unfolding unf by (simp_all split: if_splits)
    obtain h3 reps where bfs: "cosetBFS ops ssaN ?k ?gs h2 [Some 0] 0 = Inr (h3, reps)"
      using ok c1 unfolding unf
      by (cases "cosetBFS ops ssaN ?k ?gs h2 [Some 0] 0") auto
    have q: "qm_representatives q = map toInt32 reps"
      using ok c1 bfs unfolding unf
      by (auto split: sum.splits prod.splits option.splits)
    from cosetBFS_prefix[OF bfs] obtain ys where "reps = [Some 0] @ ys" by blast
    with q show "qm_representatives q \<noteq> [] \<and> qm_representatives q ! 0 = 0"
      by (simp add: toInt32_def)
  qed
  from p1 p2 p3 show ?thesis by blast
qed

theorem getQuotientStructure_preconditions_witness:
  "(\<exists>e. getQuotientStructure order_ssa_ops initial_heap (ArgSSA 6) (ArgSSA 4) 2000 = Some (Inl e))
   \<and> (\<exists>e. getQuotientStructure order_ssa_ops initial_heap (ArgSSA 6) (ArgSSA 1) 5 = Some (Inl e))
   \<and> getQuotientStructure order_ssa_ops initial_heap (ArgSSA 1) (ArgSSA 1) 2000
       = Some (Inr (\<lparr>qm_group = \<lparr>ids = [0], isGroup = True\<rparr>, qm_representatives = [0], qm_size = 1\<rparr>,
                    initial_heap))
   \<and> qm_representatives \<lparr>qm_group = \<lparr>ids = [0], isGroup = True\<rparr>, qm_representatives = [0], qm_size = 1\<rparr> ! 0 = 0"
proof -
  have e: "\<And>n. ensureSSA order_ssa_ops initial_heap (ArgSSA n) = Inr (n, initial_heap)"
    by (simp add: ensureSSA_def)
  have o: "\<And>n. ssa_order order_ssa_ops n = n"
    by (simp add: order_ssa_ops_def)
  have a: "\<exists>e. getQuotientStructure order_ssa_ops initial_heap (ArgSSA 6) (ArgSSA 4) 2000 = Some (Inl e)"
    using getQuotientStructure_preconditions[OF e e, of 4 6 2000] by (simp add: o)
  have b: "\<exists>e. getQuotientStructure order_ssa_ops initial_heap (ArgSSA 6) (ArgSSA 1) 5 = Some (Inl e)"
    using getQuotientStructure_preconditions[OF e e, of 1 6 5] by (simp add: o)
  have cl: "closureLoop (PermutationSet [] False False) initial_heap \<lparr>ids = [0], isGroup = False\<rparr> 0
              = Some (\<lparr>ids = [0], isGroup = False\<rparr>, initial_heap)"
    apply (subst closureLoop.simps)
    apply (simp add: PermutationSet_multiply_def PermutationSet_def sortAndUnique_def
                     PermutationSet_union_def IntSetUtils_union_def)
    apply (subst closureLoop.simps)
    apply simp
    done
  have bfs: "cosetBFS order_ssa_ops 1 1 [] initial_heap [Some 0] 0 = Inr (initial_heap, [Some 0])"
    apply (subst cosetBFS.simps)
    apply simp
    apply (subst cosetBFS.simps)
    apply simp
    done
  have c: "getQuotientStructure order_ssa_ops initial_heap (ArgSSA 1) (ArgSSA 1) 2000
       = Some (Inr (\<lparr>qm_group = \<lparr>ids = [0], isGroup = True\<rparr>, qm_representatives = [0], qm_size = 1\<rparr>,
                    initial_heap))"
    using cl bfs
    by (simp add: getQuotientStructure_def ensureSSA_def order_ssa_ops_def ensureGensSSA_def
                  PermutationSet_def sortAndUnique_def generateGroup_def generateGroupSet_def
                  PermutationSet_inverse_def PermutationSet_union_def IntSetUtils_union_def
                  PermutationSet_identity_def toInt32_def)
  from getQuotientStructure_preconditions[OF e e, of 1 1 2000] c
  have d: "qm_representatives \<lparr>qm_group = \<lparr>ids = [0], isGroup = True\<rparr>, qm_representatives = [0], qm_size = 1\<rparr> ! 0 = 0"
    by blast
  from a b c d show ?thesis by blast
qed

section \<open>Interning: idempotence, padding and degree upgrade\<close>

lemma pad_append:
  assumes "length xs = N" "N \<le> N'"
  shows "pad N' xs = xs @ map int [N..<N']"
proof (rule nth_equalityI)
  show "length (pad N' xs) = length (xs @ map int [N..<N'])" using assms by simp
next
  fix k assume "k < length (pad N' xs)"
  then have k: "k < N'" by simp
  show "pad N' xs ! k = (xs @ map int [N..<N']) ! k"
    using pad_nth[OF k, of xs] assms k by (auto simp: nth_append)
qed


lemma pad_pad: "pad N (pad N xs) = pad N xs"
  by (rule pad_id) simp

lemma register_char:
  assumes inv: "repo_inv r"
    and rng: "in_range (max (globalDegree r) (length raw)) raw"
    and fit: "length raw \<le> globalDegree r \<or> length raw < 2 * INITIAL_TRIE_SLOTS"
  shows "\<exists>i r'. register r raw = (Some (int i), r') \<and> repo_inv r'
          \<and> globalDegree r' = max (globalDegree r) (length raw)
          \<and> i < count r' \<and> get r' i = pad (max (globalDegree r) (length raw)) raw
          \<and> count r \<le> count r' \<and> i \<le> count r
          \<and> count r' = (if i = count r then count r + 1 else count r)
          \<and> (\<forall>j<count r. get r' j = pad (max (globalDegree r) (length raw)) (get r j))
          \<and> (\<forall>j<count r. pad (max (globalDegree r) (length raw)) (get r j)
                              = pad (max (globalDegree r) (length raw)) raw \<longrightarrow> j = i)
          \<and> (i < count r \<longrightarrow> pad (max (globalDegree r) (length raw)) (get r i)
                              = pad (max (globalDegree r) (length raw)) raw)"
proof -
  let ?N' = "max (globalDegree r) (length raw)"
  from register_spec[OF inv rng fit] obtain i r' where
    a: "register r raw = (Some (int i), r')" "repo_inv r'" "globalDegree r' = ?N'"
      "i < count r'" "get r' i = pad ?N' raw" "count r \<le> count r'" "count r' \<le> count r + 1"
      "\<forall>j<count r. get r' j = pad ?N' (get r j)" "count r' = count r + 1 \<longrightarrow> i = count r"
    by blast
  have b1: "i \<le> count r" using a(4,7) by simp
  have b2: "count r' = (if i = count r then count r + 1 else count r)"
    using a(4,6,7,9) by auto
  have b3: "\<forall>j<count r. pad ?N' (get r j) = pad ?N' raw \<longrightarrow> j = i"
  proof (intro allI impI)
    fix j assume j: "j < count r" and e: "pad ?N' (get r j) = pad ?N' raw"
    then have "get r' j = get r' i" using a(5,8) by simp
    moreover have "j < count r'" using j a(6) by simp
    ultimately show "j = i" using repo_inv_unique[OF a(2) _ a(4)] by simp
  qed
  have b4: "i < count r \<longrightarrow> pad ?N' (get r i) = pad ?N' raw"
    using a(5,8) pad_pad by auto
  show ?thesis
    apply (rule exI[of _ i], rule exI[of _ r'])
    apply (intro conjI)
              apply (rule a(1))
             apply (rule a(2))
            apply (rule a(3))
           apply (rule a(4))
          apply (rule a(5))
         apply (rule a(6))
        apply (rule b1)
       apply (rule b2)
      apply (rule a(8))
     apply (rule b3)
    apply (rule b4)
    done
qed

lemma initial_repo:
  "new_repo 4 1024 = Inr (globalRepo initial_heap)"
  "repo_inv (globalRepo initial_heap)"
  "globalDegree (globalRepo initial_heap) = 4"
  "count (globalRepo initial_heap) = 1"
  "get (globalRepo initial_heap) 0 = [0, 1, 2, 3]"
proof -
  have "(0::nat) < 4" "(4::nat) < 2 * INITIAL_TRIE_SLOTS" "(0::nat) < 1024"
    by (simp_all add: INITIAL_TRIE_SLOTS_def)
  from new_repo_ok[OF this] obtain r where r: "new_repo 4 1024 = Inr r" "repo_inv r"
    "globalDegree r = 4" "count r = 1" "get r 0 = map int [0..<4]" by blast
  have e: "globalRepo initial_heap = r" unfolding initial_heap_def using r(1) by simp
  have m: "map int [0..<4] = [0, 1, 2, 3]" by (simp add: upt_rec)
  show "new_repo 4 1024 = Inr (globalRepo initial_heap)"
    "repo_inv (globalRepo initial_heap)"
    "globalDegree (globalRepo initial_heap) = 4"
    "count (globalRepo initial_heap) = 1"
    "get (globalRepo initial_heap) 0 = [0, 1, 2, 3]"
    unfolding e using r m by simp_all
qed



text \<open>
  Claim C3. When \<open>register\<close> raises the degree of a well-formed repository from \<open>N\<close> to
  \<open>N' > N\<close> (for an array of length \<open>N' < 2 * INITIAL_TRIE_SLOTS\<close> with entries below \<open>N'\<close>):
  the degree becomes \<open>N'\<close>; every stored image keeps its first \<open>N\<close> entries and is followed by
  the fixed points \<open>N, ..., N' - 1\<close>; registering an old image, or its padded form, in the new
  state returns its old ID; and the call returns an old ID or the old count, the count growing
  by one exactly in the latter case.
\<close>

theorem upgrade_preserves_ids_and_images:
  assumes "repo_inv r"
    and "globalDegree r < length raw"
    and "length raw < 2 * INITIAL_TRIE_SLOTS"
    and "in_range (length raw) raw"
  shows "globalDegree (snd (register r raw)) = length raw
       \<and> (\<forall>j<count r. get (snd (register r raw)) j
                          = get r j @ map int [globalDegree r..<length raw])
       \<and> (\<forall>j<count r. fst (register (snd (register r raw)) (get r j)) = Some (int j))
       \<and> (\<forall>j<count r. fst (register (snd (register r raw)) (get (snd (register r raw)) j))
                          = Some (int j))
       \<and> (\<exists>i. fst (register r raw) = Some (int i) \<and> i \<le> count r
              \<and> count (snd (register r raw)) = (if i = count r then count r + 1 else count r))"
proof -
  let ?N = "globalDegree r" and ?N' = "length raw"
  have mx: "max ?N ?N' = ?N'" using assms(2) by simp
  have rng: "in_range (max ?N ?N') raw" using assms(4) mx by simp
  have fit: "?N' \<le> ?N \<or> ?N' < 2 * INITIAL_TRIE_SLOTS" using assms(3) by simp
  from assms(1) have so: "store_ok r" unfolding repo_inv_def by blast
  from register_char[OF assms(1) rng fit] obtain i r' where
    a: "register r raw = (Some (int i), r')" "repo_inv r'" "globalDegree r' = ?N'"
      "count r \<le> count r'" "i \<le> count r"
      "count r' = (if i = count r then count r + 1 else count r)"
      "\<forall>j<count r. get r' j = pad ?N' (get r j)"
    unfolding mx by blast
  have gl: "length (get r j) = ?N" "in_range ?N (get r j)" if "j < count r" for j
    using so that get_length[of r j] unfolding store_ok_def by simp_all
  have s': "snd (register r raw) = r'" "fst (register r raw) = Some (int i)" using a(1) by simp_all
  have c2: "\<forall>j<count r. get r' j = get r j @ map int [?N..<?N']"
  proof (intro allI impI)
    fix j assume j: "j < count r"
    from pad_append[OF gl(1)[OF j]] assms(2) a(7) j
    show "get r' j = get r j @ map int [?N..<?N']" by simp
  qed
  have re: "fst (register r' xs) = Some (int j)"
    if j: "j < count r" and xs: "pad ?N' xs = get r' j" "length xs \<le> ?N'" "in_range ?N' xs"
    for j xs
  proof -
    have mx': "max (globalDegree r') (length xs) = ?N'" using a(3) xs(2) by simp
    have rng': "in_range (max (globalDegree r') (length xs)) xs" using xs(3) mx' by simp
    have fit': "length xs \<le> globalDegree r' \<or> length xs < 2 * INITIAL_TRIE_SLOTS"
      using xs(2) a(3) by simp
    from register_char[OF a(2) rng' fit'] obtain i2 r2 where
      b: "register r' xs = (Some (int i2), r2)"
        "\<forall>k<count r'. pad ?N' (get r' k) = pad ?N' xs \<longrightarrow> k = i2"
      unfolding mx' by blast
    have "length (get r' j) = ?N'" using xs(1)[symmetric] by simp
    from pad_id[of "get r' j", unfolded this]
    have "pad ?N' (get r' j) = pad ?N' xs" using xs(1) by simp
    moreover have "j < count r'" using j a(4) by simp
    ultimately have "j = i2" using b(2) by simp
    with b(1) show ?thesis by simp
  qed
  have c3: "\<forall>j<count r. fst (register r' (get r j)) = Some (int j)"
  proof (intro allI impI)
    fix j assume j: "j < count r"
    have "in_range ?N' (get r j)"
      using gl(2)[OF j] assms(2) unfolding in_range_def by fastforce
    then show "fst (register r' (get r j)) = Some (int j)"
      using re[OF j, of "get r j"] a(7) j gl(1)[OF j] assms(2) by simp
  qed
  have c4: "\<forall>j<count r. fst (register r' (get r' j)) = Some (int j)"
  proof (intro allI impI)
    fix j assume j: "j < count r"
    have l: "length (get r' j) = ?N'" using a(7) j by simp
    have "in_range ?N' (pad ?N' (get r j))"
      by (rule in_range_pad_mono[OF gl(2)[OF j]]) (use assms(2) in simp)
    then have "in_range ?N' (get r' j)" using a(7) j by simp
    then show "fst (register r' (get r' j)) = Some (int j)"
      using re[OF j, of "get r' j"] pad_id[of "get r' j", unfolded l] l by simp
  qed
  have c5: "\<exists>i. fst (register r raw) = Some (int i) \<and> i \<le> count r
              \<and> count r' = (if i = count r then count r + 1 else count r)"
    using s'(2) a(5,6) by blast
  show ?thesis
    unfolding s'(1) using a(3) c2 c3 c4 c5 by (intro conjI)
qed

theorem upgrade_preserves_ids_and_images_witness:
  "repo_inv (globalRepo initial_heap)
   \<and> globalDegree (globalRepo initial_heap) < length [0, 1, 2, 3, 5, 4 :: int]
   \<and> length [0, 1, 2, 3, 5, 4 :: int] < 2 * INITIAL_TRIE_SLOTS
   \<and> in_range (length [0, 1, 2, 3, 5, 4 :: int]) [0, 1, 2, 3, 5, 4]
   \<and> globalDegree (snd (register (globalRepo initial_heap) [0, 1, 2, 3, 5, 4])) = 6
   \<and> get (snd (register (globalRepo initial_heap) [0, 1, 2, 3, 5, 4])) 0 = [0, 1, 2, 3, 4, 5]
   \<and> fst (register (snd (register (globalRepo initial_heap) [0, 1, 2, 3, 5, 4])) [0, 1, 2, 3])
       = Some 0"
proof -
  let ?r = "globalRepo initial_heap" and ?raw = "[0, 1, 2, 3, 5, 4 :: int]"
  have h1: "repo_inv ?r" by (rule initial_repo(2))
  have h2: "globalDegree ?r < length ?raw" by (simp add: initial_repo(3))
  have h3: "length ?raw < 2 * INITIAL_TRIE_SLOTS" by (simp add: INITIAL_TRIE_SLOTS_def)
  have h4: "in_range (length ?raw) ?raw" by (simp add: in_range_def)
  note t = upgrade_preserves_ids_and_images[OF h1 h2 h3 h4]
  have z: "(0::nat) < count ?r" by (simp add: initial_repo(4))
  have m: "map int [globalDegree ?r..<length ?raw] = [4, 5]"
    by (simp add: initial_repo(3) upt_rec)
  from t have c1: "globalDegree (snd (register ?r ?raw)) = 6" by simp
  from t z have "get (snd (register ?r ?raw)) 0 = get ?r 0 @ map int [globalDegree ?r..<length ?raw]"
    by blast
  then have c2: "get (snd (register ?r ?raw)) 0 = [0, 1, 2, 3, 4, 5]"
    unfolding m initial_repo(5) by simp
  from t z have "fst (register (snd (register ?r ?raw)) (get ?r 0)) = Some (int 0)" by blast
  then have c3: "fst (register (snd (register ?r ?raw)) [0, 1, 2, 3]) = Some 0"
    unfolding initial_repo(5) by simp
  from h1 h2 h3 h4 c1 c2 c3 show ?thesis by blast
qed

lemma slots_split: "\<exists>n. INITIAL_TRIE_SLOTS = 100 + n"
  by (rule exI[of _ "INITIAL_TRIE_SLOTS - 100"]) (simp add: INITIAL_TRIE_SLOTS_def)




section \<open>Orbits are closed under the whole set\<close>

text \<open>The image of point \<open>x\<close> under the stored permutation \<open>g\<close>, as the orbit loop reads it:
  \<open>permBuffer[g * N + x]\<close>.\<close>

definition imageAt :: "int list \<Rightarrow> nat \<Rightarrow> int \<Rightarrow> int \<Rightarrow> jsnum" where
  "imageAt pbuf N g x = ta_get pbuf (Some (g * int N + x))"

text \<open>The orbit of \<open>p\<close>: the least set of points that contains \<open>p\<close> and, with a point \<open>x\<close>,
  every image of \<open>x\<close> under a member of the set that is a point below the degree.\<close>

inductive_set orbit_pts :: "int list \<Rightarrow> nat \<Rightarrow> int list \<Rightarrow> int \<Rightarrow> int set"
  for pbuf :: "int list" and N :: nat and idl :: "int list" and p :: int where
    orbit_start: "p \<in> orbit_pts pbuf N idl p"
  | orbit_step: "x \<in> orbit_pts pbuf N idl p \<Longrightarrow> g \<in> set idl \<Longrightarrow> imageAt pbuf N g x = Some y
                 \<Longrightarrow> 0 \<le> y \<Longrightarrow> y < int N \<Longrightarrow> y \<in> orbit_pts pbuf N idl p"










lemma cycle_repo:
  "\<exists>pb tb. globalRepo heap_with_cycle =
     \<lparr>globalDegree = 4, count = 2, permCapacity = 1024, permBuffer = pb, trieNodeSize = 5,
      trieBuffer = tb, trieFreePtr = 45\<rparr> \<and> length pb = 4096
     \<and> pb ! 4 = 1 \<and> pb ! 5 = 2 \<and> pb ! 6 = 0 \<and> pb ! 7 = 3"
proof -
  obtain n where n: "INITIAL_TRIE_SLOTS = 100 + n" using slots_split by blast
  show ?thesis
    unfolding heap_with_cycle_def initial_heap_def new_repo_def register_def allocateNode_def
      trieStep_def writeToPermBuffer_def n
    by (simp add: Let_def upt_rec ta_set_def ta_get_def jadd_def toInt32_def
          nth_list_update)
qed




section \<open>Cycle notation: formatting and parsing back\<close>

subsection \<open>Decimal numerals\<close>

lemma digit_val_digit_char: "d < 10 \<Longrightarrow> digit_val (digit_char d) = Some d"
  by (simp add: digit_val_def digit_char_def Let_def)

lemma digit_not_special:
  assumes "digit_val c \<noteq> None"
  shows "\<not> is_sep c" "\<not> is_space c" "c \<noteq> CHR ''(''" "c \<noteq> CHR '')''" "c \<noteq> CHR ''-''"
    "c \<noteq> CHR ''+''"
proof -
  have r: "48 \<le> (of_char c :: nat)" "(of_char c :: nat) \<le> 57"
    using assms by (simp_all add: digit_val_def Let_def split: if_splits)
  show "\<not> is_space c" using r by (auto simp: is_space_def)
  then show "\<not> is_sep c" using r by (auto simp: is_sep_def)
  show "c \<noteq> CHR ''(''" using r by auto
  show "c \<noteq> CHR '')''" using r by auto
  show "c \<noteq> CHR ''-''" using r by auto
  show "c \<noteq> CHR ''+''" using r by auto
qed

lemma show_nat_digits: "\<forall>c\<in>set (show_nat n). digit_val c \<noteq> None"
proof (induction n rule: show_nat.induct)
  case (1 n)
  show ?case
  proof (cases "n < 10")
    case True
    then show ?thesis by (subst show_nat.simps) (simp add: digit_val_digit_char)
  next
    case False
    have "n mod 10 < 10" by simp
    then have "digit_val (digit_char (n mod 10)) \<noteq> None" by (simp add: digit_val_digit_char)
    with 1 False show ?thesis by (subst show_nat.simps) simp
  qed
qed

lemma show_nat_nonempty: "show_nat n \<noteq> []"
  by (subst show_nat.simps) simp

lemma digits_val_snoc:
  "digits_val (s @ [c]) =
     (case digits_val s of None \<Rightarrow> None
      | Some a \<Rightarrow> (case digit_val c of None \<Rightarrow> None | Some d \<Rightarrow> Some (a * 10 + int d)))"
  by (simp add: digits_val_def)

lemma digits_val_show_nat: "digits_val (show_nat n) = Some (int n)"
proof (induction n rule: show_nat.induct)
  case (1 n)
  show ?case
  proof (cases "n < 10")
    case True
    have "digits_val [digit_char n] = Some (int n)"
      using digits_val_snoc[of "[]" "digit_char n"] True
      by (simp add: digit_val_digit_char digits_val_def)
    then show ?thesis using True by (subst show_nat.simps) simp
  next
    case False
    have m: "n mod 10 < 10" by simp
    have "n div 10 * 10 + n mod 10 = n" by simp
    then have "int (n div 10 * 10 + n mod 10) = int n" by (rule arg_cong)
    then have e: "int (n div 10) * 10 + int (n mod 10) = int n"
      by (simp only: of_nat_add of_nat_mult of_nat_numeral)
    have "digits_val (show_nat (n div 10) @ [digit_char (n mod 10)]) = Some (int n)"
      unfolding digits_val_snoc using 1[OF False] m by (simp add: digit_val_digit_char e)
    then show ?thesis using False by (subst show_nat.simps) simp
  qed
qed

lemma js_Number_show_nat: "js_Number (show_nat n) = Some (int n)"
proof -
  obtain c cs where s: "show_nat n = c # cs" using show_nat_nonempty[of n] by (cases "show_nat n") auto
  then have "digit_val c \<noteq> None" using show_nat_digits[of n] by simp
  from digit_not_special(5,6)[OF this] show ?thesis
    using s digits_val_show_nat[of n] by (simp add: js_Number_def)
qed

lemma js_Number_show_int: "0 \<le> k \<Longrightarrow> js_Number (show_int k) = Some k"
  using js_Number_show_nat[of "nat k"] by (simp add: show_int_def)

lemma show_int_digits: "0 \<le> k \<Longrightarrow> \<forall>c\<in>set (show_int k). digit_val c \<noteq> None"
  using show_nat_digits[of "nat k"] by (simp add: show_int_def)

lemma show_int_nonempty: "show_int k \<noteq> []"
  by (simp add: show_int_def show_nat_nonempty)

subsection \<open>Joining and splitting\<close>

lemma splitSep_token:
  "\<forall>c\<in>set t. \<not> is_sep c \<Longrightarrow>
     splitSep (t @ rest) acc b = splitSep rest (acc @ t) (if t = [] then b else False)"
proof (induction t arbitrary: acc b)
  case Nil
  then show ?case by simp
next
  case (Cons c t)
  then have c: "\<not> is_sep c" and t: "\<forall>c\<in>set t. \<not> is_sep c" by simp_all
  show ?case using c Cons.IH[OF t, of "acc @ [c]" False] by simp
qed

lemma is_sep_space: "is_sep CHR '' ''"
  by (simp add: is_sep_def is_space_def)

lemma splitSep_join:
  "toks \<noteq> [] \<Longrightarrow> \<forall>t\<in>set toks. t \<noteq> [] \<and> (\<forall>c\<in>set t. \<not> is_sep c) \<Longrightarrow>
     splitSep (join_with '' '' toks) [] b = toks"
proof (induction "'' ''" toks arbitrary: b rule: join_with.induct)
  case 1
  then show ?case by simp
next
  case (2 x)
  then have x: "\<forall>c\<in>set x. \<not> is_sep c" by simp
  show ?case using splitSep_token[OF x, of "[]" "[]" b] by simp
next
  case (3 x y ys)
  then have x: "\<forall>c\<in>set x. \<not> is_sep c" and xn: "x \<noteq> []" by simp_all
  have rest: "\<forall>t\<in>set (y # ys). t \<noteq> [] \<and> (\<forall>c\<in>set t. \<not> is_sep c)" using 3(3) by simp
  have ih: "splitSep (join_with '' '' (y # ys)) [] True = y # ys"
    using 3(1)[OF _ rest, of True] by simp
  have "splitSep (x @ (CHR '' '' # join_with '' '' (y # ys))) [] b
          = splitSep (CHR '' '' # join_with '' '' (y # ys)) x False"
    using splitSep_token[OF x, of "CHR '' '' # join_with '' '' (y # ys)" "[]" b] xn by simp
  also have "\<dots> = x # splitSep (join_with '' '' (y # ys)) [] True"
    using is_sep_space by simp
  finally show ?case using ih by simp
qed

lemma join_with_chars:
  "set (join_with sep toks) \<subseteq> set sep \<union> \<Union> (set ` set toks)"
  by (induction sep toks rule: join_with.induct) auto

lemma join_with_hd:
  "toks \<noteq> [] \<Longrightarrow> \<forall>t\<in>set toks. t \<noteq> [] \<Longrightarrow>
     join_with sep toks \<noteq> [] \<and> hd (join_with sep toks) = hd (hd toks)
     \<and> last (join_with sep toks) = last (last toks)"
  by (induction sep toks rule: join_with.induct) auto

lemma trim_id:
  assumes "s \<noteq> []" "\<not> is_space (hd s)" "\<not> is_space (last s)"
  shows "trim s = s"
proof -
  have dw: "dropWhile is_space xs = xs" if "xs \<noteq> []" "\<not> is_space (hd xs)" for xs
    using that by (cases xs) simp_all
  have a: "dropWhile is_space s = s" using assms(1,2) by (rule dw)
  have "rev s \<noteq> []" "hd (rev s) = last s" using assms(1) by (simp_all add: hd_rev)
  then have b: "dropWhile is_space (rev s) = rev s" using assms(3) dw[of "rev s"] by simp
  show ?thesis unfolding trim_def a b by simp
qed

subsection \<open>One formatted cycle\<close>

definition fmtCycle :: "int list \<Rightarrow> string" where
  "fmtCycle c = ''('' @ join_with '' '' (map show_int c) @ '')''"

lemma parseCycleString_fmt:
  assumes ne: "c \<noteq> []" and pos: "\<forall>k\<in>set c. 1 \<le> k"
  shows "parseCycleString (fmtCycle c) = map Some c"
proof -
  let ?toks = "map show_int c"
  let ?body = "join_with '' '' ?toks"
  have tne: "?toks \<noteq> []" using ne by simp
  have tdig: "\<forall>t\<in>set ?toks. \<forall>ch\<in>set t. digit_val ch \<noteq> None"
  proof
    fix t assume "t \<in> set ?toks"
    then obtain k where k: "k \<in> set c" "t = show_int k" by auto
    then have "0 \<le> k" using pos by force
    from show_int_digits[OF this] k(2) show "\<forall>ch\<in>set t. digit_val ch \<noteq> None" by simp
  qed
  have tok: "\<forall>t\<in>set ?toks. t \<noteq> [] \<and> (\<forall>ch\<in>set t. \<not> is_sep ch)"
  proof
    fix t assume t: "t \<in> set ?toks"
    then have "t \<noteq> []" using show_int_nonempty by auto
    moreover have "\<forall>ch\<in>set t. \<not> is_sep ch" using tdig t digit_not_special(1) by blast
    ultimately show "t \<noteq> [] \<and> (\<forall>ch\<in>set t. \<not> is_sep ch)" by blast
  qed
  have tok_ne: "\<forall>t\<in>set ?toks. t \<noteq> []" using tok by blast
  have chars: "\<forall>ch\<in>set ?body. ch = CHR '' '' \<or> digit_val ch \<noteq> None"
    using join_with_chars[of "'' ''" ?toks] tdig by auto
  have nopar: "\<forall>ch\<in>set ?body. ch \<noteq> CHR ''('' \<and> ch \<noteq> CHR '')''"
  proof
    fix ch assume "ch \<in> set ?body"
    with chars have "ch = CHR '' '' \<or> digit_val ch \<noteq> None" by blast
    then show "ch \<noteq> CHR ''('' \<and> ch \<noteq> CHR '')''"
    proof (elim disjE)
      assume "ch = CHR '' ''"
      then show ?thesis by simp
    next
      assume d: "digit_val ch \<noteq> None"
      from digit_not_special(3,4)[OF d] show ?thesis by simp
    qed
  qed
  have filt: "filter (\<lambda>ch. ch \<noteq> CHR ''('' \<and> ch \<noteq> CHR '')'') (fmtCycle c) = ?body"
    unfolding fmtCycle_def using nopar by (simp add: filter_id_conv)
  from join_with_hd[OF tne tok_ne, of "'' ''"] have
    bne: "?body \<noteq> []" and bh: "hd ?body = hd (hd ?toks)" and bl: "last ?body = last (last ?toks)"
    by blast+
  have h1: "hd ?toks \<in> set ?toks" by (rule hd_in_set[OF tne])
  have l1: "last ?toks \<in> set ?toks" by (rule last_in_set[OF tne])
  have "hd ?toks \<noteq> []" using tok_ne h1 by blast
  then have "hd (hd ?toks) \<in> set (hd ?toks)" by (rule hd_in_set)
  then have h2: "digit_val (hd (hd ?toks)) \<noteq> None" using tdig h1 by blast
  have "last ?toks \<noteq> []" using tok_ne l1 by blast
  then have "last (last ?toks) \<in> set (last ?toks)" by (rule last_in_set)
  then have l2: "digit_val (last (last ?toks)) \<noteq> None" using tdig l1 by blast
  have "digit_val (hd ?body) \<noteq> None" "digit_val (last ?body) \<noteq> None"
    unfolding bh bl by (rule h2, rule l2)
  then have "\<not> is_space (hd ?body)" "\<not> is_space (last ?body)"
    using digit_not_special(2) by blast+
  from trim_id[OF bne this] have tr: "trim ?body = ?body" .
  have "parseCycleString (fmtCycle c) = map js_Number ?toks"
    unfolding parseCycleString_def filt tr using splitSep_join[OF tne tok, of False] by simp
  also have "\<dots> = map Some c"
  proof -
    have "js_Number (show_int k) = Some k" if "k \<in> set c" for k
    proof -
      from that pos have "1 \<le> k" by blast
      then have "0 \<le> k" by simp
      then show ?thesis by (rule js_Number_show_int)
    qed
    then show ?thesis by simp
  qed
  finally show ?thesis .
qed

lemma fmtCycle_shape:
  assumes ne: "c \<noteq> []" and pos: "\<forall>k\<in>set c. 1 \<le> k"
  shows "\<exists>body. fmtCycle c = CHR ''('' # body @ '')'' \<and> body \<noteq> [] \<and> CHR '')'' \<notin> set body"
proof -
  let ?toks = "map show_int c"
  let ?body = "join_with '' '' ?toks"
  have tne: "?toks \<noteq> []" using ne by simp
  have tdig: "\<forall>t\<in>set ?toks. \<forall>ch\<in>set t. digit_val ch \<noteq> None"
  proof
    fix t assume "t \<in> set ?toks"
    then obtain k where k: "k \<in> set c" "t = show_int k" by auto
    then have "0 \<le> k" using pos by force
    from show_int_digits[OF this] k(2) show "\<forall>ch\<in>set t. digit_val ch \<noteq> None" by simp
  qed
  have tok_ne: "\<forall>t\<in>set ?toks. t \<noteq> []" using show_int_nonempty by auto
  have chars: "\<forall>ch\<in>set ?body. ch = CHR '' '' \<or> digit_val ch \<noteq> None"
    using join_with_chars[of "'' ''" ?toks] tdig by auto
  have nopar: "CHR '')'' \<notin> set ?body"
  proof
    assume "CHR '')'' \<in> set ?body"
    with chars have "CHR '')'' = CHR '' '' \<or> digit_val CHR '')'' \<noteq> None" by blast
    then have d: "digit_val CHR '')'' \<noteq> None" by simp
    from digit_not_special(4)[OF d] show False by simp
  qed
  from join_with_hd[OF tne tok_ne, of "'' ''"] have bne: "?body \<noteq> []" by blast
  show ?thesis using bne nopar unfolding fmtCycle_def by auto
qed

lemma matchCycles_one:
  assumes "body \<noteq> []" "CHR '')'' \<notin> set body"
  shows "matchCycles (CHR ''('' # body @ '')'' @ rest) = (CHR ''('' # body @ '')'') # matchCycles rest"
proof -
  have tw: "takeWhile (\<lambda>x. x \<noteq> CHR '')'') (body @ CHR '')'' # rest) = body"
    using assms(2) by (induction body) auto
  have dw: "dropWhile (\<lambda>x. x \<noteq> CHR '')'') (body @ CHR '')'' # rest) = CHR '')'' # rest"
    using assms(2) by (induction body) auto
  show ?thesis
    by (subst matchCycles.simps(2)) (simp add: tw dw assms(1))
qed

lemma matchCycles_concat_fmt:
  "\<forall>c\<in>set cl. c \<noteq> [] \<and> (\<forall>k\<in>set c. 1 \<le> k) \<Longrightarrow>
     matchCycles (concat (map fmtCycle cl)) = map fmtCycle cl"
proof (induction cl)
  case Nil
  then show ?case by simp
next
  case (Cons c cl)
  then have c: "c \<noteq> []" "\<forall>k\<in>set c. 1 \<le> k" by simp_all
  from fmtCycle_shape[OF c] obtain body where
    b: "fmtCycle c = CHR ''('' # body @ '')''" "body \<noteq> []" "CHR '')'' \<notin> set body" by blast
  have "matchCycles (concat (map fmtCycle (c # cl)))
          = matchCycles (CHR ''('' # body @ '')'' @ concat (map fmtCycle cl))"
    using b(1) by simp
  also have "\<dots> = (CHR ''('' # body @ '')'') # matchCycles (concat (map fmtCycle cl))"
    by (rule matchCycles_one[OF b(2,3)])
  finally show ?case using Cons b(1) by simp
qed

lemma matchCycles_empty: "matchCycles ''()'' = []"
  by simp

lemma fmtCycle_nonempty: "fmtCycle c \<noteq> []"
  by (simp add: fmtCycle_def)

subsection \<open>Permutation arrays and the traced cycle\<close>

text \<open>A permutation array: its entries are distinct points below its length.\<close>

definition is_perm :: "int list \<Rightarrow> bool" where
  "is_perm p \<longleftrightarrow> distinct p \<and> (\<forall>k\<in>set p. 0 \<le> k \<and> k < int (length p))"

lemma perm_range:
  assumes "is_perm p" "k < length p"
  shows "0 \<le> p ! k" "p ! k < int (length p)" "nat (p ! k) < length p" "int (nat (p ! k)) = p ! k"
proof -
  have "p ! k \<in> set p" using assms(2) by simp
  then show a: "0 \<le> p ! k" "p ! k < int (length p)" using assms(1) unfolding is_perm_def by blast+
  then show "nat (p ! k) < length p" "int (nat (p ! k)) = p ! k" by simp_all
qed

lemma perm_inj:
  assumes "is_perm p" "x < length p" "y < length p" "p ! x = p ! y"
  shows "x = y"
proof -
  from assms(1) have "distinct p" unfolding is_perm_def by blast
  from nth_eq_iff_index_eq[OF this assms(2,3)] assms(4) show ?thesis by blast
qed

lemma perm_inj_nat:
  assumes "is_perm p" "x < length p" "y < length p" "nat (p ! x) = nat (p ! y)"
  shows "x = y"
proof -
  have "p ! x = p ! y"
    using perm_range(4)[OF assms(1,2)] perm_range(4)[OF assms(1,3)] assms(4) by metis
  then show ?thesis by (rule perm_inj[OF assms(1,2,3)])
qed

text \<open>\<open>chain p c xs\<close>: the list \<open>xs\<close> follows \<open>p\<close> from \<open>c\<close>, each element the image of the one
  before.\<close>

fun chain :: "int list \<Rightarrow> nat \<Rightarrow> nat list \<Rightarrow> bool" where
  "chain p c [] = True"
| "chain p c (x # xs) = (x = c \<and> x < length p \<and> chain p (nat (p ! x)) xs)"

definition chain_end :: "int list \<Rightarrow> nat \<Rightarrow> nat list \<Rightarrow> nat" where
  "chain_end p c xs = (if xs = [] then c else nat (p ! last xs))"

lemma chain_end_Cons: "chain_end p c (c # xs) = chain_end p (nat (p ! c)) xs"
  by (simp add: chain_end_def)

lemma chain_bound: "chain p c xs \<Longrightarrow> \<forall>x\<in>set xs. x < length p"
  by (induction xs arbitrary: c) auto

lemma chain_succ: "chain p c xs \<Longrightarrow> Suc j < length xs \<Longrightarrow> xs ! Suc j = nat (p ! (xs ! j))"
proof (induction xs arbitrary: c j)
  case Nil
  then show ?case by simp
next
  case (Cons x xs)
  from Cons.prems(1) have ch: "chain p (nat (p ! x)) xs" by auto
  show ?case
  proof (cases j)
    case 0
    then obtain y ys where ys: "xs = y # ys" using Cons.prems(2) by (cases xs) auto
    then have "y = nat (p ! x)" using ch by simp
    then show ?thesis using 0 ys by simp
  next
    case (Suc i)
    then have "Suc i < length xs" using Cons.prems(2) by simp
    from Cons.IH[OF ch this] show ?thesis using Suc by simp
  qed
qed

lemma chain_hd: "chain p c xs \<Longrightarrow> xs \<noteq> [] \<Longrightarrow> xs ! 0 = c"
  by (cases xs) auto

lemma traceCycle_spec:
  "cur = Some (int c) \<Longrightarrow> is_perm p \<Longrightarrow> length visited = length p \<Longrightarrow> c < length p
   \<Longrightarrow> traceCycle p visited cur cycle = (visited', cycle')
   \<Longrightarrow> \<exists>xs. cycle' = cycle @ map (\<lambda>x. int x + 1) xs \<and> chain p c xs \<and> distinct xs
          \<and> (\<forall>x\<in>set xs. visited ! x = 0) \<and> length visited' = length p
          \<and> (\<forall>k<length p. visited' ! k = (if k \<in> set xs then 1 else visited ! k))
          \<and> chain_end p c xs < length p \<and> visited' ! chain_end p c xs \<noteq> 0"
proof (induction p visited cur cycle arbitrary: c rule: traceCycle.induct)
  case (1 permArr visited cur cycle)
  have cur: "cur = Some (int c)" by (rule "1.prems"(1))
  have len: "length visited = length permArr" by (rule "1.prems"(3))
  have c: "c < length permArr" by (rule "1.prems"(4))
  have rd: "ta_get visited cur = Some (visited ! c)"
    unfolding cur ta_get_nat using c len by simp
  show ?case
  proof (cases "ta_get visited cur = Some 0")
    case False
    then have out: "visited' = visited" "cycle' = cycle"
      using "1.prems"(5) by (subst (asm) traceCycle.simps, simp)+
    have nz: "visited ! c \<noteq> 0" using False rd by simp
    show ?thesis
      apply (rule exI[of _ "[]"])
      using out len c nz by (simp add: chain_end_def)
  next
    case True
    then have z: "visited ! c = 0" using rd by simp
    let ?c1 = "nat (permArr ! c)"
    have c1: "?c1 < length permArr" "int ?c1 = permArr ! c"
      using perm_range(3,4)[OF "1.prems"(2) c] by simp_all
    have nx: "ta_get permArr cur = Some (int ?c1)"
      unfolding cur ta_get_nat using c c1(2) by simp
    have upd: "ta_set visited cur (Some 1) = visited[c := 1]"
      unfolding cur ta_set_nat by (simp add: toInt32_simps)
    have len1: "length (ta_set visited cur (Some 1)) = length permArr"
      unfolding upd using len by simp
    have run: "traceCycle permArr (ta_set visited cur (Some 1)) (ta_get permArr cur)
                 (cycle @ [toInt32 cur + 1]) = (visited', cycle')"
      using "1.prems"(5) True by (subst (asm) traceCycle.simps) simp
    from "1.IH"[OF True nx "1.prems"(2) len1 c1(1) run] obtain xs where
      x: "cycle' = (cycle @ [toInt32 cur + 1]) @ map (\<lambda>x. int x + 1) xs" "chain permArr ?c1 xs"
        "distinct xs" "\<forall>x\<in>set xs. ta_set visited cur (Some 1) ! x = 0"
        "length visited' = length permArr"
        "\<forall>k<length permArr. visited' ! k
            = (if k \<in> set xs then 1 else ta_set visited cur (Some 1) ! k)"
        "chain_end permArr ?c1 xs < length permArr" "visited' ! chain_end permArr ?c1 xs \<noteq> 0"
      by blast
    have cnot: "c \<notin> set xs"
    proof
      assume "c \<in> set xs"
      with x(4) have "visited[c := 1] ! c = 0" unfolding upd by blast
      then show False using c len by simp
    qed
    have old: "\<forall>x\<in>set xs. visited ! x = 0"
    proof
      fix y assume y: "y \<in> set xs"
      with x(4) have "visited[c := 1] ! y = 0" unfolding upd by blast
      moreover have "y \<noteq> c" using y cnot by blast
      ultimately show "visited ! y = 0" by simp
    qed
    have e1: "cycle' = cycle @ map (\<lambda>x. int x + 1) (c # xs)"
      using x(1) cur by (simp add: toInt32_simps)
    have e2: "chain permArr c (c # xs)" using x(2) c by simp
    have e3: "distinct (c # xs)" using x(3) cnot by simp
    have e4: "\<forall>x\<in>set (c # xs). visited ! x = 0" using old z by simp
    have e6: "\<forall>k<length permArr. visited' ! k = (if k \<in> set (c # xs) then 1 else visited ! k)"
    proof (intro allI impI)
      fix k assume k: "k < length permArr"
      with x(6) have v: "visited' ! k = (if k \<in> set xs then 1 else visited[c := 1] ! k)"
        unfolding upd by blast
      show "visited' ! k = (if k \<in> set (c # xs) then 1 else visited ! k)"
      proof (cases "k = c")
        case True
        then show ?thesis using v c len by simp
      next
        case False
        then show ?thesis using v by simp
      qed
    qed
    have e7: "chain_end permArr c (c # xs) < length permArr"
      "visited' ! chain_end permArr c (c # xs) \<noteq> 0"
      unfolding chain_end_Cons using x(7,8) by simp_all
    show ?thesis
      apply (rule exI[of _ "c # xs"])
      apply (intro conjI)
             apply (rule e1)
            apply (rule e2)
           apply (rule e3)
          apply (rule e4)
         apply (rule x(5))
        apply (rule e6)
       apply (rule e7(1))
      apply (rule e7(2))
      done
  qed
qed

lemma cycle_closed:
  assumes perm: "is_perm p" and ch: "chain p c xs" and d: "distinct xs" and ne: "xs \<noteq> []"
    and mem: "chain_end p c xs \<in> set xs"
  shows "chain_end p c xs = c"
    and "\<forall>j<length xs. int (xs ! ((j + 1) mod length xs)) = p ! (xs ! j)"
    and "\<forall>x<length p. nat (p ! x) \<in> set xs \<longrightarrow> x \<in> set xs"
proof -
  let ?m = "length xs"
  have m: "0 < ?m" using ne by simp
  have bnd: "\<And>j. j < ?m \<Longrightarrow> xs ! j < length p" using chain_bound[OF ch] by simp
  have e: "chain_end p c xs = nat (p ! (xs ! (?m - 1)))"
    using ne by (simp add: chain_end_def last_conv_nth)
  have sc: "\<And>i. Suc i < ?m \<Longrightarrow> xs ! Suc i = nat (p ! (xs ! i))" by (rule chain_succ[OF ch])
  have zero: "xs ! 0 = c" by (rule chain_hd[OF ch ne])
  have wrap: "\<not> (Suc i < ?m \<and> nat (p ! (xs ! i)) = nat (p ! (xs ! (?m - 1))))" for i
  proof
    assume a: "Suc i < ?m \<and> nat (p ! (xs ! i)) = nat (p ! (xs ! (?m - 1)))"
    then have "Suc i < ?m" by blast
    then have i: "i < ?m" "?m - 1 < ?m" by linarith+
    from perm_inj_nat[OF perm bnd[OF i(1)] bnd[OF i(2)]] a have "xs ! i = xs ! (?m - 1)" by blast
    with nth_eq_iff_index_eq[OF d i] have "i = ?m - 1" by blast
    with a show False by simp
  qed
  from mem obtain j where j: "j < ?m" "xs ! j = chain_end p c xs" by (auto simp: in_set_conv_nth)
  have j0: "j = 0"
  proof (rule ccontr)
    assume "j \<noteq> 0"
    then obtain i where i: "j = Suc i" by (cases j) auto
    then have "Suc i < ?m" using j(1) by simp
    moreover have "nat (p ! (xs ! i)) = nat (p ! (xs ! (?m - 1)))"
      using sc[OF \<open>Suc i < ?m\<close>] j(2) i e by simp
    ultimately show False using wrap[of i] by blast
  qed
  show ec: "chain_end p c xs = c" using j(2) j0 zero by simp
  have last_img: "nat (p ! (xs ! (?m - 1))) = xs ! 0" using ec e zero by simp
  show succ: "\<forall>j<length xs. int (xs ! ((j + 1) mod length xs)) = p ! (xs ! j)"
  proof (intro allI impI)
    fix k assume k: "k < ?m"
    show "int (xs ! ((k + 1) mod ?m)) = p ! (xs ! k)"
    proof (cases "Suc k < ?m")
      case True
      then have "(k + 1) mod ?m = Suc k" by simp
      then show ?thesis using sc[OF True] perm_range(4)[OF perm bnd[OF k]] by simp
    next
      case False
      then have km: "k = ?m - 1" using k by simp
      then have "(k + 1) mod ?m = 0" using m by simp
      then show ?thesis using last_img km perm_range(4)[OF perm bnd[OF k]] by simp
    qed
  qed
  show "\<forall>x<length p. nat (p ! x) \<in> set xs \<longrightarrow> x \<in> set xs"
  proof (intro allI impI)
    fix x assume x: "x < length p" and "nat (p ! x) \<in> set xs"
    then obtain k where k: "k < ?m" "xs ! k = nat (p ! x)" by (auto simp: in_set_conv_nth)
    show "x \<in> set xs"
    proof (cases k)
      case 0
      then have "nat (p ! x) = nat (p ! (xs ! (?m - 1)))" using k(2) last_img by simp
      moreover have l: "?m - 1 < ?m" using m by simp
      ultimately have "x = xs ! (?m - 1)" using perm_inj_nat[OF perm x bnd[OF l]] by blast
      then show ?thesis using l by simp
    next
      case (Suc i)
      then have si: "Suc i < ?m" and i: "i < ?m" using k(1) by simp_all
      have "nat (p ! x) = nat (p ! (xs ! i))" using sc[OF si] k(2) Suc by simp
      then have "x = xs ! i" using perm_inj_nat[OF perm x bnd[OF i]] by blast
      then show ?thesis using i by simp
    qed
  qed
qed

lemma fold_images_length: "length (fold (\<lambda>x q. q[x := f x]) xs q) = length q"
  by (induction xs arbitrary: q) simp_all

lemma fold_images_nth:
  "k < length q \<Longrightarrow> fold (\<lambda>x q. q[x := f x]) xs q ! k = (if k \<in> set xs then f k else q ! k)"
proof (induction xs arbitrary: q)
  case Nil
  then show ?case by simp
next
  case (Cons x xs)
  have "k < length (q[x := f x])" using Cons.prems by simp
  from Cons.IH[OF this] show ?case using Cons.prems by (auto simp: nth_list_update)
qed

lemma applyCycle_images:
  assumes len2: "2 \<le> length xs" and bnd: "\<forall>x\<in>set xs. x < n"
    and succ: "\<forall>j<length xs. int (xs ! ((j + 1) mod length xs)) = p ! (xs ! j)"
    and rng: "\<forall>x\<in>set xs. p ! x < int n"
  shows "applyCycle n (map (\<lambda>x. int x + 1) xs) q = fold (\<lambda>x q. q[x := p ! x]) xs q"
proof -
  let ?m = "length xs"
  let ?cyc = "map (\<lambda>x. int x + 1) xs"
  let ?g = "\<lambda>i q. (let current = ?cyc ! i - 1; next = ?cyc ! ((i + 1) mod ?m) - 1
                   in if current \<ge> int n \<or> next \<ge> int n then q
                      else ta_set q (Some current) (Some next))"
  have g: "?g i q' = q'[xs ! i := p ! (xs ! i)]" if i: "i < ?m" for i q'
  proof -
    have "0 < ?m" using i by linarith
    then have i2: "(i + 1) mod ?m < ?m" by (rule mod_less_divisor)
    have cur: "?cyc ! i - 1 = int (xs ! i)" using i by simp
    have nxt: "?cyc ! ((i + 1) mod ?m) - 1 = p ! (xs ! i)" using i2 succ i by simp
    have "xs ! i \<in> set xs" using i by simp
    then have b: "\<not> int (xs ! i) \<ge> int n" "\<not> p ! (xs ! i) \<ge> int n" using bnd rng by fastforce+
    show ?thesis
      unfolding Let_def cur nxt using b by (simp add: ta_set_nat toInt32_simps)
  qed
  have "fold ?g [0..<?m] q = fold (\<lambda>i q'. q'[xs ! i := p ! (xs ! i)]) [0..<?m] q"
  proof (rule fold_cong[OF refl refl])
    fix i assume "i \<in> set [0..<?m]"
    then have i: "i < ?m" by simp
    show "?g i = (\<lambda>q'. q'[xs ! i := p ! (xs ! i)])" by (rule ext) (rule g[OF i])
  qed
  also have "\<dots> = fold ((\<lambda>x q'. q'[x := p ! x]) \<circ> (\<lambda>i. xs ! i)) [0..<?m] q"
    by (simp add: comp_def)
  also have "\<dots> = fold (\<lambda>x q'. q'[x := p ! x]) (map (\<lambda>i. xs ! i) [0..<?m]) q"
    by (simp add: fold_map)
  also have "map (\<lambda>i. xs ! i) [0..<?m] = xs" by (rule map_nth)
  finally have f: "fold ?g [0..<?m] q = fold (\<lambda>x q'. q'[x := p ! x]) xs q" .
  have "applyCycle n ?cyc q = fold ?g [0..<?m] q"
    using len2 by (simp add: applyCycle_def Let_def)
  then show ?thesis using f by simp
qed

subsection \<open>The decomposition loop on lists of points\<close>

text \<open>The body of the loop of \<open>decomposeToCycles\<close> with the cycles kept as lists of 1-based
  points; \<open>cycleStep\<close> formats each of them as it is found.\<close>

definition cycleStepL :: "int list \<Rightarrow> nat \<Rightarrow> int list \<times> int list list \<Rightarrow> int list \<times> int list list" where
  "cycleStepL permArr i s =
     (case s of (visited, cl) \<Rightarrow>
        if ta_get visited (Some (int i)) = Some 0
        then (if ta_get permArr (Some (int i)) = Some (int i)
              then (ta_set visited (Some (int i)) (Some 1), cl)
              else (case traceCycle permArr visited (Some (int i)) [] of
                      (visited', cycle) \<Rightarrow>
                        (visited', if length cycle > 1 then cl @ [cycle] else cl)))
        else (visited, cl))"

lemma cycleStep_sim:
  "cycleStep p i (v, map fmtCycle cl)
     = (case cycleStepL p i (v, cl) of (v', cl') \<Rightarrow> (v', map fmtCycle cl'))"
  by (simp add: cycleStep_def cycleStepL_def fmtCycle_def split: prod.splits)

lemma cycleStep_fold_sim:
  "fold (cycleStep p) js (v, map fmtCycle cl)
     = (case fold (cycleStepL p) js (v, cl) of (v', cl') \<Rightarrow> (v', map fmtCycle cl'))"
proof (induction js arbitrary: v cl)
  case Nil
  then show ?case by simp
next
  case (Cons j js)
  obtain v1 cl1 where s: "cycleStepL p j (v, cl) = (v1, cl1)" by (cases "cycleStepL p j (v, cl)")
  have "cycleStep p j (v, map fmtCycle cl) = (v1, map fmtCycle cl1)"
    unfolding cycleStep_sim s by simp
  then show ?case using Cons.IH[of v1 cl1] s by simp
qed

definition cyc_inv :: "int list \<Rightarrow> nat \<Rightarrow> int list \<Rightarrow> int list list \<Rightarrow> bool" where
  "cyc_inv p i visited cl \<longleftrightarrow>
     length visited = length p
     \<and> (\<forall>x<length p. visited ! nat (p ! x) \<noteq> 0 \<longrightarrow> visited ! x \<noteq> 0)
     \<and> (\<forall>k<i. visited ! k \<noteq> 0)
     \<and> (\<forall>c\<in>set cl. c \<noteq> [] \<and> (\<forall>k\<in>set c. 1 \<le> k))
     \<and> length (fold (applyCycle (length p)) cl (map int [0..<length p])) = length p
     \<and> (\<forall>k<length p. fold (applyCycle (length p)) cl (map int [0..<length p]) ! k
                          = (if visited ! k \<noteq> 0 then p ! k else int k))"

lemma cyc_inv_init: "is_perm p \<Longrightarrow> cyc_inv p 0 (replicate (length p) 0) []"
  unfolding cyc_inv_def using perm_range(3) by simp

lemma cyc_inv_seen:
  assumes "cyc_inv p i v cl" "i < length p" "v ! i \<noteq> 0"
  shows "cyc_inv p (Suc i) v cl"
proof -
  have "\<forall>k<Suc i. v ! k \<noteq> 0"
  proof (intro allI impI)
    fix k assume "k < Suc i"
    then have "k < i \<or> k = i" by linarith
    then show "v ! k \<noteq> 0" using assms(1,3) unfolding cyc_inv_def by blast
  qed
  then show ?thesis using assms(1) unfolding cyc_inv_def by blast
qed

lemma cyc_inv_fixed:
  assumes perm: "is_perm p" and inv: "cyc_inv p i v cl" and i: "i < length p"
    and z: "v ! i = 0" and fx: "p ! i = int i"
  shows "cyc_inv p (Suc i) (v[i := 1]) cl"
proof -
  let ?n = "length p"
  let ?q = "fold (applyCycle ?n) cl (map int [0..<?n])"
  from inv have len: "length v = ?n"
    and pre: "\<And>x. x < ?n \<Longrightarrow> v ! nat (p ! x) \<noteq> 0 \<Longrightarrow> v ! x \<noteq> 0"
    and vis: "\<And>k. k < i \<Longrightarrow> v ! k \<noteq> 0"
    and wf: "\<forall>c\<in>set cl. c \<noteq> [] \<and> (\<forall>k\<in>set c. 1 \<le> k)"
    and ql: "length ?q = ?n"
    and q: "\<And>k. k < ?n \<Longrightarrow> ?q ! k = (if v ! k \<noteq> 0 then p ! k else int k)"
    unfolding cyc_inv_def by blast+
  have a: "length (v[i := 1]) = ?n" using len by simp
  have b: "\<forall>x<?n. v[i := 1] ! nat (p ! x) \<noteq> 0 \<longrightarrow> v[i := 1] ! x \<noteq> 0"
  proof (intro allI impI)
    fix x assume x: "x < ?n" and nz: "v[i := 1] ! nat (p ! x) \<noteq> 0"
    show "v[i := 1] ! x \<noteq> 0"
    proof (cases "x = i")
      case True
      then show ?thesis using i len by simp
    next
      case False
      have "nat (p ! x) \<noteq> i"
      proof
        assume "nat (p ! x) = i"
        then have "nat (p ! x) = nat (p ! i)" using fx by simp
        from perm_inj_nat[OF perm x i this] False show False by blast
      qed
      then have "v ! nat (p ! x) \<noteq> 0" using nz by simp
      from pre[OF x this] False show ?thesis by simp
    qed
  qed
  have c: "\<forall>k<Suc i. v[i := 1] ! k \<noteq> 0"
  proof (intro allI impI)
    fix k assume "k < Suc i"
    then have "k < i \<or> k = i" by linarith
    then show "v[i := 1] ! k \<noteq> 0"
    proof
      assume "k < i"
      then show ?thesis using vis[of k] by simp
    next
      assume "k = i"
      then show ?thesis using i len by simp
    qed
  qed
  have d: "\<forall>k<?n. ?q ! k = (if v[i := 1] ! k \<noteq> 0 then p ! k else int k)"
  proof (intro allI impI)
    fix k assume k: "k < ?n"
    show "?q ! k = (if v[i := 1] ! k \<noteq> 0 then p ! k else int k)"
    proof (cases "k = i")
      case True
      then show ?thesis using q[OF k] z fx i len by simp
    next
      case False
      then show ?thesis using q[OF k] by simp
    qed
  qed
  show ?thesis unfolding cyc_inv_def using a b c wf ql d by blast
qed

lemma cyc_inv_cycle:
  assumes perm: "is_perm p" and inv: "cyc_inv p i v cl" and i: "i < length p"
    and z: "v ! i = 0" and mv: "p ! i \<noteq> int i"
    and tr: "traceCycle p v (Some (int i)) [] = (v', cycle)"
  shows "length cycle > 1 \<and> cyc_inv p (Suc i) v' (cl @ [cycle])"
proof -
  let ?n = "length p"
  let ?q = "fold (applyCycle ?n) cl (map int [0..<?n])"
  from inv have len: "length v = ?n"
    and pre: "\<And>x. x < ?n \<Longrightarrow> v ! nat (p ! x) \<noteq> 0 \<Longrightarrow> v ! x \<noteq> 0"
    and vis: "\<And>k. k < i \<Longrightarrow> v ! k \<noteq> 0"
    and wf: "\<forall>c\<in>set cl. c \<noteq> [] \<and> (\<forall>k\<in>set c. 1 \<le> k)"
    and ql: "length ?q = ?n"
    and q: "\<And>k. k < ?n \<Longrightarrow> ?q ! k = (if v ! k \<noteq> 0 then p ! k else int k)"
    unfolding cyc_inv_def by blast+
  from traceCycle_spec[OF refl perm len i tr] obtain xs where
    cyc: "cycle = map (\<lambda>x. int x + 1) xs" and ch: "chain p i xs" and d: "distinct xs"
    and un: "\<And>x. x \<in> set xs \<Longrightarrow> v ! x = 0" and len': "length v' = ?n"
    and v': "\<And>k. k < ?n \<Longrightarrow> v' ! k = (if k \<in> set xs then 1 else v ! k)"
    and eb: "chain_end p i xs < ?n" and enz: "v' ! chain_end p i xs \<noteq> 0"
    by auto
  have bnd: "\<And>x. x \<in> set xs \<Longrightarrow> x < ?n" using chain_bound[OF ch] by blast
  have ne: "xs \<noteq> []"
  proof
    assume "xs = []"
    then have "chain_end p i xs = i" "v' ! i = v ! i" using v'[OF i] by (simp_all add: chain_end_def)
    then show False using enz z by simp
  qed
  have mem: "chain_end p i xs \<in> set xs"
  proof (rule ccontr)
    assume nm: "chain_end p i xs \<notin> set xs"
    then have "v ! chain_end p i xs \<noteq> 0" using v'[OF eb] enz by simp
    then have "v ! nat (p ! last xs) \<noteq> 0" using ne by (simp add: chain_end_def)
    moreover have l: "last xs \<in> set xs" using ne by simp
    ultimately have "v ! last xs \<noteq> 0" using pre[OF bnd[OF l]] by blast
    then show False using un[OF l] by simp
  qed
  note cc = cycle_closed[OF perm ch d ne mem]
  have hd: "xs ! 0 = i" by (rule chain_hd[OF ch ne])
  have iin: "i \<in> set xs" using hd ne by (metis length_greater_0_conv nth_mem)
  have l2: "2 \<le> length xs"
  proof (rule ccontr)
    assume "\<not> 2 \<le> length xs"
    moreover have "length xs \<noteq> 0" using ne by simp
    ultimately have "length xs = 1" by linarith
    then have "last xs = xs ! 0" using last_conv_nth[OF ne] by simp
    then have "chain_end p i xs = nat (p ! i)" using ne hd by (simp add: chain_end_def)
    then have "nat (p ! i) = i" using cc(1) by simp
    then have "p ! i = int i" using perm_range(4)[OF perm i] by simp
    then show False using mv by simp
  qed
  have lc: "length cycle > 1" using l2 cyc by simp
  have rng: "\<forall>x\<in>set xs. p ! x < int ?n" using perm_range(2)[OF perm] bnd by blast
  have bnd': "\<forall>x\<in>set xs. x < ?n" using bnd by blast
  have ap: "applyCycle ?n cycle ?q = fold (\<lambda>x q. q[x := p ! x]) xs ?q"
    unfolding cyc by (rule applyCycle_images[OF l2 bnd' cc(2) rng])
  have fq: "fold (applyCycle ?n) (cl @ [cycle]) (map int [0..<?n])
              = fold (\<lambda>x q. q[x := p ! x]) xs ?q"
    using ap by simp
  have b: "\<forall>x<?n. v' ! nat (p ! x) \<noteq> 0 \<longrightarrow> v' ! x \<noteq> 0"
  proof (intro allI impI)
    fix x assume x: "x < ?n" and nz: "v' ! nat (p ! x) \<noteq> 0"
    have px: "nat (p ! x) < ?n" by (rule perm_range(3)[OF perm x])
    show "v' ! x \<noteq> 0"
    proof (cases "nat (p ! x) \<in> set xs")
      case True
      then have "x \<in> set xs" using cc(3) x by blast
      then show ?thesis using v'[OF x] by simp
    next
      case False
      then have "v ! nat (p ! x) \<noteq> 0" using nz v'[OF px] by simp
      from pre[OF x this] show ?thesis using v'[OF x] by simp
    qed
  qed
  have c: "\<forall>k<Suc i. v' ! k \<noteq> 0"
  proof (intro allI impI)
    fix k assume k: "k < Suc i"
    then have kn: "k < ?n" using i by linarith
    from k have "k < i \<or> k = i" by linarith
    then show "v' ! k \<noteq> 0"
    proof
      assume "k < i"
      then show ?thesis using vis[of k] v'[OF kn] by simp
    next
      assume "k = i"
      then show ?thesis using iin v'[OF kn] by simp
    qed
  qed
  have w: "\<forall>c\<in>set (cl @ [cycle]). c \<noteq> [] \<and> (\<forall>k\<in>set c. 1 \<le> k)"
    using wf ne cyc by auto
  have e: "length (fold (applyCycle ?n) (cl @ [cycle]) (map int [0..<?n])) = ?n"
    unfolding fq fold_images_length by (rule ql)
  have f: "\<forall>k<?n. fold (applyCycle ?n) (cl @ [cycle]) (map int [0..<?n]) ! k
                      = (if v' ! k \<noteq> 0 then p ! k else int k)"
  proof (intro allI impI)
    fix k assume k: "k < ?n"
    have kq: "k < length ?q" using k ql by simp
    show "fold (applyCycle ?n) (cl @ [cycle]) (map int [0..<?n]) ! k
            = (if v' ! k \<noteq> 0 then p ! k else int k)"
      unfolding fq fold_images_nth[OF kq] using v'[OF k] q[OF k] by simp
  qed
  have "cyc_inv p (Suc i) v' (cl @ [cycle])"
    unfolding cyc_inv_def using len' b c w e f by blast
  with lc show ?thesis by blast
qed

lemma cycleStepL_inv:
  assumes perm: "is_perm p" and inv: "cyc_inv p i v cl" and i: "i < length p"
  shows "case cycleStepL p i (v, cl) of (v', cl') \<Rightarrow> cyc_inv p (Suc i) v' cl'"
proof -
  from inv have len: "length v = length p" unfolding cyc_inv_def by blast
  have rd: "ta_get v (Some (int i)) = Some (v ! i)" unfolding ta_get_nat using i len by simp
  have rp: "ta_get p (Some (int i)) = Some (p ! i)" unfolding ta_get_nat using i by simp
  show ?thesis
  proof (cases "v ! i = 0")
    case False
    then have "cycleStepL p i (v, cl) = (v, cl)" using i len by (simp add: cycleStepL_def)
    then show ?thesis using cyc_inv_seen[OF inv i False] by simp
  next
    case True
    show ?thesis
    proof (cases "p ! i = int i")
      case fx: True
      have "cycleStepL p i (v, cl) = (v[i := 1], cl)"
        using True fx i len by (simp add: cycleStepL_def)
      then show ?thesis using cyc_inv_fixed[OF perm inv i True fx] by simp
    next
      case mv: False
      obtain v' cycle where tr: "traceCycle p v (Some (int i)) [] = (v', cycle)"
        by (cases "traceCycle p v (Some (int i)) []")
      from cyc_inv_cycle[OF perm inv i True mv tr]
      have lc: "length cycle > 1" and ci: "cyc_inv p (Suc i) v' (cl @ [cycle])" by blast+
      have "cycleStepL p i (v, cl) = (v', cl @ [cycle])"
        using True mv tr lc i len by (simp add: cycleStepL_def)
      then show ?thesis using ci by simp
    qed
  qed
qed

lemma cycle_fold_inv:
  assumes perm: "is_perm p"
  shows "m \<le> length p \<Longrightarrow>
     (case fold (cycleStepL p) [0..<m] (replicate (length p) 0, []) of
        (v, cl) \<Rightarrow> cyc_inv p m v cl)"
proof (induction m)
  case 0
  then show ?case using cyc_inv_init[OF perm] by simp
next
  case (Suc m)
  obtain v cl where s: "fold (cycleStepL p) [0..<m] (replicate (length p) 0, []) = (v, cl)"
    by (cases "fold (cycleStepL p) [0..<m] (replicate (length p) 0, [])")
  from Suc have inv: "cyc_inv p m v cl" and m: "m < length p" using s by simp_all
  from cycleStepL_inv[OF perm inv m] show ?case using s by simp
qed


subsection \<open>The round trip\<close>

lemma decomposeToCycles_as_list:
  assumes perm: "is_perm p"
  shows "\<exists>v cl. fold (cycleStepL p) [0..<length p] (replicate (length p) 0, []) = (v, cl)
           \<and> decomposeToCycles p = (if cl = [] then ''()'' else concat (map fmtCycle cl))
           \<and> (\<forall>c\<in>set cl. c \<noteq> [] \<and> (\<forall>k\<in>set c. 1 \<le> k))
           \<and> fold (applyCycle (length p)) cl (map int [0..<length p]) = p"
proof -
  let ?n = "length p"
  obtain v cl where s: "fold (cycleStepL p) [0..<?n] (replicate ?n 0, []) = (v, cl)"
    by (cases "fold (cycleStepL p) [0..<?n] (replicate ?n 0, [])")
  from cycle_fold_inv[OF perm, of ?n] s have inv: "cyc_inv p ?n v cl" by simp
  then have wf: "\<forall>c\<in>set cl. c \<noteq> [] \<and> (\<forall>k\<in>set c. 1 \<le> k)"
    and vis: "\<And>k. k < ?n \<Longrightarrow> v ! k \<noteq> 0"
    and ql: "length (fold (applyCycle ?n) cl (map int [0..<?n])) = ?n"
    and q: "\<And>k. k < ?n \<Longrightarrow> fold (applyCycle ?n) cl (map int [0..<?n]) ! k
                             = (if v ! k \<noteq> 0 then p ! k else int k)"
    unfolding cyc_inv_def by blast+
  have res: "fold (applyCycle ?n) cl (map int [0..<?n]) = p"
  proof (rule nth_equalityI)
    show "length (fold (applyCycle ?n) cl (map int [0..<?n])) = length p" by (rule ql)
  next
    fix k assume "k < length (fold (applyCycle ?n) cl (map int [0..<?n]))"
    then have k: "k < ?n" using ql by simp
    show "fold (applyCycle ?n) cl (map int [0..<?n]) ! k = p ! k"
      using q[OF k] vis[OF k] by simp
  qed
  have f: "fold (cycleStep p) [0..<?n] (replicate ?n 0, []) = (v, map fmtCycle cl)"
    using cycleStep_fold_sim[of p "[0..<?n]" "replicate ?n 0" "[]"] s by simp
  have emp: "concat (map fmtCycle cl) = [] \<longleftrightarrow> cl = []"
    using fmtCycle_nonempty by (cases cl) auto
  have dec: "decomposeToCycles p = (if cl = [] then ''()'' else concat (map fmtCycle cl))"
    unfolding decomposeToCycles_def Let_def f using emp by simp
  from s dec wf res show ?thesis by blast
qed

lemma parseCycles_of_cycles:
  assumes wf: "\<forall>c\<in>set cl. c \<noteq> [] \<and> (\<forall>k\<in>set c. 1 \<le> k)"
    and n: "cl \<noteq> [] \<longrightarrow> n \<noteq> 0"
  shows "parseCycles (if cl = [] then ''()'' else concat (map fmtCycle cl)) n
           = Inr (fold (applyCycle n) cl (map int [0..<n]))"
proof -
  let ?str = "if cl = [] then ''()'' else concat (map fmtCycle cl)"
  have mc: "matchCycles ?str = map fmtCycle cl"
    using matchCycles_concat_fmt[OF wf] matchCycles_empty by simp
  have pc: "map parseCycleString (map fmtCycle cl) = map (map Some) cl"
  proof -
    have "parseCycleString (fmtCycle c) = map Some c" if "c \<in> set cl" for c
      using that wf parseCycleString_fmt by blast
    then show ?thesis by simp
  qed
  have noerr: "\<not> (\<exists>cycle \<in> set (map (map Some) cl). \<exists>e \<in> set cycle.
                    (case e of None \<Rightarrow> True | Some v \<Rightarrow> v \<le> 0))"
  proof
    assume "\<exists>cycle \<in> set (map (map Some) cl). \<exists>e \<in> set cycle.
                    (case e of None \<Rightarrow> True | Some v \<Rightarrow> v \<le> 0)"
    then obtain c k where "c \<in> set cl" "k \<in> set c" "k \<le> 0" by auto
    moreover from this wf have "1 \<le> k" by blast
    ultimately show False by simp
  qed
  have nums: "map (map toInt32) (map (map Some) cl) = cl"
    by (simp add: comp_def toInt32_simps)
  show ?thesis
  proof (cases "n = 0")
    case True
    then have "cl = []" using n by blast
    then show ?thesis using True by (simp add: parseCycles_def)
  next
    case False
    show ?thesis
      unfolding parseCycles_def mc pc Let_def nums using noerr False by simp
  qed
qed

text \<open>
  Claim C8, as amended. For every permutation array \<open>p\<close> (distinct entries, all of them points
  below the length \<open>n\<close> of \<open>p\<close>), \<open>parseCycles(decomposeToCycles(p), n)\<close>, with the degree passed
  as second argument, returns \<open>p\<close>.
\<close>

theorem parseCycles_decomposeToCycles_degree:
  assumes "is_perm p"
  shows "parseCycles (decomposeToCycles p) (length p) = Inr p"
proof -
  from decomposeToCycles_as_list[OF assms] obtain v cl where
    s: "fold (cycleStepL p) [0..<length p] (replicate (length p) 0, []) = (v, cl)"
    and dec: "decomposeToCycles p = (if cl = [] then ''()'' else concat (map fmtCycle cl))"
    and wf: "\<forall>c\<in>set cl. c \<noteq> [] \<and> (\<forall>k\<in>set c. 1 \<le> k)"
    and res: "fold (applyCycle (length p)) cl (map int [0..<length p]) = p"
    by blast
  have n: "cl \<noteq> [] \<longrightarrow> length p \<noteq> 0"
  proof (intro impI notI)
    assume "cl \<noteq> []" "length p = 0"
    then show False using s by simp
  qed
  show ?thesis unfolding dec parseCycles_of_cycles[OF wf n] res ..
qed

theorem parseCycles_decomposeToCycles_degree_witness:
  "is_perm [1, 2, 0, 3, 5, 4]
   \<and> parseCycles (decomposeToCycles [1, 2, 0, 3, 5, 4]) (length [1, 2, 0, 3, 5, 4 :: int])
       = Inr [1, 2, 0, 3, 5, 4]
   \<and> is_perm [0, 1, 2]
   \<and> parseCycles (decomposeToCycles [0, 1, 2]) (length [0, 1, 2 :: int]) = Inr [0, 1, 2]"
proof -
  have a: "is_perm [1, 2, 0, 3, 5, 4]" by (simp add: is_perm_def)
  have b: "is_perm [0, 1, 2]" by (simp add: is_perm_def)
  from parseCycles_decomposeToCycles_degree[OF a] parseCycles_decomposeToCycles_degree[OF b] a b
  show ?thesis by blast
qed

text \<open>
  Claim C8, as written, calls \<open>parseCycles\<close> with the string only. The degree is then taken from
  the largest point that occurs in a cycle, so trailing fixed points are lost: the identity on
  three points is formatted as \<open>()\<close> and parsed back as the empty array, and \<open>[1, 0, 2]\<close> is
  formatted as \<open>(1 2)\<close> and parsed back as \<open>[1, 0]\<close>.
\<close>

theorem parseCycles_default_degree_truncates:
  "is_perm [0, 1, 2] \<and> decomposeToCycles [0, 1, 2] = ''()''
   \<and> parseCycles (decomposeToCycles [0, 1, 2]) 0 = Inr []
   \<and> is_perm [1, 0, 2] \<and> decomposeToCycles [1, 0, 2] = ''(1 2)''
   \<and> parseCycles (decomposeToCycles [1, 0, 2]) 0 = Inr [1, 0]"
  by code_simp

section \<open>The interned IDs under multiply and inverse\<close>

subsection \<open>Products and inverses of image arrays\<close>

text \<open>The array that the loop of \<open>multiply\<close> computes from the images of \<open>a\<close> and \<open>b\<close>
  (\<open>res[k] = a[b[k]]\<close>), and the array that the loop of \<open>inverse\<close> computes (\<open>res[a[k]] = k\<close>
  on a zero-filled array).\<close>

definition compose :: "int list \<Rightarrow> int list \<Rightarrow> int list" where
  "compose A B = map (\<lambda>k. A ! nat (B ! k)) [0..<length B]"

definition inverse_of :: "int list \<Rightarrow> int list" where
  "inverse_of A = fold (\<lambda>k res. res[nat (A ! k) := int k]) [0..<length A] (replicate (length A) 0)"

definition identity_of :: "nat \<Rightarrow> int list" where
  "identity_of N = map int [0..<N]"

lemma length_compose [simp]: "length (compose A B) = length B"
  by (simp add: compose_def)

lemma compose_nth: "k < length B \<Longrightarrow> compose A B ! k = A ! nat (B ! k)"
  by (simp add: compose_def)

lemma length_inverse_of [simp]: "length (inverse_of A) = length A"
  by (simp add: inverse_of_def)

lemma perm_surj:
  assumes "is_perm p" "j < length p"
  shows "\<exists>k<length p. p ! k = int j"
proof -
  from assms(1) have d: "distinct p" and rg: "\<forall>k\<in>set p. 0 \<le> k \<and> k < int (length p)"
    unfolding is_perm_def by blast+
  have r: "set p \<subseteq> int ` {0..<length p}"
  proof
    fix x assume "x \<in> set p"
    with rg have "0 \<le> x" "x < int (length p)" by blast+
    then have "nat x \<in> {0..<length p}" "x = int (nat x)" by simp_all
    then show "x \<in> int ` {0..<length p}" by (rule_tac image_eqI)
  qed
  have "card (set p) = length p" using d by (rule distinct_card)
  moreover have "card (int ` {0..<length p}) = length p" by (simp add: card_image)
  ultimately have "set p = int ` {0..<length p}"
    using card_subset_eq[OF _ r] by simp
  then have "int j \<in> set p" using assms(2) by simp
  then show ?thesis by (auto simp: in_set_conv_nth)
qed

lemma fold_targets_other:
  "j \<notin> h ` set ks \<Longrightarrow> fold (\<lambda>k b. b[h k := f k]) ks b ! j = b ! j"
  by (induction ks arbitrary: b) auto

lemma fold_targets_hit:
  "distinct (map h ks) \<Longrightarrow> k \<in> set ks \<Longrightarrow> h k < length b
   \<Longrightarrow> fold (\<lambda>k b. b[h k := f k]) ks b ! h k = f k"
proof (induction ks arbitrary: b)
  case Nil
  then show ?case by simp
next
  case (Cons x ks)
  show ?case
  proof (cases "k = x")
    case True
    have "h x \<notin> h ` set ks" using Cons.prems(1) by simp
    from fold_targets_other[OF this, of f "b[h x := f x]"] show ?thesis
      using True Cons.prems(3) by simp
  next
    case False
    then have k: "k \<in> set ks" using Cons.prems(2) by simp
    have d: "distinct (map h ks)" using Cons.prems(1) by simp
    have l: "h k < length (b[h x := f x])" using Cons.prems(3) by simp
    from Cons.IH[OF d k l] show ?thesis by simp
  qed
qed

lemma inverse_of_nth:
  assumes perm: "is_perm A" and k: "k < length A"
  shows "inverse_of A ! nat (A ! k) = int k"
proof -
  let ?h = "\<lambda>k. nat (A ! k)"
  have inj: "inj_on ?h (set [0..<length A])"
  proof (rule inj_onI)
    fix x y assume "x \<in> set [0..<length A]" "y \<in> set [0..<length A]" "?h x = ?h y"
    then show "x = y" using perm_inj_nat[OF perm, of x y] by simp
  qed
  have d: "distinct (map ?h [0..<length A])" using inj by (simp add: distinct_map)
  have kin: "k \<in> set [0..<length A]" using k by simp
  have l: "?h k < length (replicate (length A) (0::int))" using perm_range(3)[OF perm k] by simp
  from fold_targets_hit[OF d kin l, of int] show ?thesis unfolding inverse_of_def .
qed

lemma inverse_of_at:
  assumes perm: "is_perm A" and j: "j < length A"
  shows "\<exists>k<length A. A ! k = int j \<and> inverse_of A ! j = int k"
proof -
  from perm_surj[OF perm j] obtain k where k: "k < length A" "A ! k = int j" by blast
  from inverse_of_nth[OF perm k(1)] k(2) have "inverse_of A ! j = int k" by simp
  with k show ?thesis by blast
qed

lemma is_perm_identity: "is_perm (identity_of N)"
  by (auto simp: is_perm_def identity_of_def distinct_map inj_on_def)

lemma is_perm_compose:
  assumes A: "is_perm A" and B: "is_perm B" and len: "length A = length B"
  shows "is_perm (compose A B)"
proof -
  let ?N = "length B"
  let ?f = "\<lambda>k. A ! nat (B ! k)"
  have inj: "inj_on ?f (set [0..<?N])"
  proof (rule inj_onI)
    fix x y assume x: "x \<in> set [0..<?N]" and y: "y \<in> set [0..<?N]" and e: "?f x = ?f y"
    have bx: "nat (B ! x) < length A" "nat (B ! y) < length A"
      using perm_range(3)[OF B] x y len by simp_all
    from perm_inj[OF A bx e] have "nat (B ! x) = nat (B ! y)" .
    then show "x = y" using perm_inj_nat[OF B, of x y] x y by simp
  qed
  have d: "distinct (compose A B)" unfolding compose_def using inj by (simp add: distinct_map)
  have r: "\<forall>v\<in>set (compose A B). 0 \<le> v \<and> v < int (length (compose A B))"
  proof
    fix v assume "v \<in> set (compose A B)"
    then obtain k where k: "k < ?N" "v = A ! nat (B ! k)" by (auto simp: compose_def)
    have "nat (B ! k) < length A" using perm_range(3)[OF B k(1)] len by simp
    from perm_range(1,2)[OF A this] k(2) len
    show "0 \<le> v \<and> v < int (length (compose A B))" by simp
  qed
  show ?thesis unfolding is_perm_def using d r by blast
qed

lemma is_perm_inverse_of:
  assumes A: "is_perm A"
  shows "is_perm (inverse_of A)"
proof -
  let ?N = "length A"
  have r: "\<forall>v\<in>set (inverse_of A). 0 \<le> v \<and> v < int (length (inverse_of A))"
  proof
    fix v assume "v \<in> set (inverse_of A)"
    then obtain j where j: "j < ?N" "v = inverse_of A ! j" by (auto simp: in_set_conv_nth)
    from inverse_of_at[OF A j(1)] j(2) show "0 \<le> v \<and> v < int (length (inverse_of A))" by auto
  qed
  have d: "distinct (inverse_of A)"
  proof (rule iffD2[OF distinct_conv_nth], intro allI impI)
    fix i j assume i: "i < length (inverse_of A)" and j: "j < length (inverse_of A)" and ne: "i \<noteq> j"
    from inverse_of_at[OF A, of i] i obtain k where k: "A ! k = int i" "inverse_of A ! i = int k"
      by auto
    from inverse_of_at[OF A, of j] j obtain k' where k': "A ! k' = int j" "inverse_of A ! j = int k'"
      by auto
    show "inverse_of A ! i \<noteq> inverse_of A ! j"
    proof
      assume "inverse_of A ! i = inverse_of A ! j"
      then have "k = k'" using k(2) k'(2) by simp
      then have "int i = int j" using k(1) k'(1) by simp
      then show False using ne by simp
    qed
  qed
  show ?thesis unfolding is_perm_def using d r by blast
qed

lemma compose_assoc:
  assumes C: "is_perm C" and len: "length B = length C"
  shows "compose A (compose B C) = compose (compose A B) C"
proof (rule nth_equalityI)
  show "length (compose A (compose B C)) = length (compose (compose A B) C)" by simp
next
  fix k assume "k < length (compose A (compose B C))"
  then have k: "k < length C" by simp
  have c: "nat (C ! k) < length B" using perm_range(3)[OF C k] len by simp
  show "compose A (compose B C) ! k = compose (compose A B) C ! k"
    using k c by (simp add: compose_nth)
qed

lemma compose_inverse_right:
  assumes A: "is_perm A"
  shows "compose A (inverse_of A) = identity_of (length A)"
proof (rule nth_equalityI)
  show "length (compose A (inverse_of A)) = length (identity_of (length A))"
    by (simp add: identity_of_def)
next
  fix j assume "j < length (compose A (inverse_of A))"
  then have j: "j < length A" by simp
  from inverse_of_at[OF A j] obtain k where k: "k < length A" "A ! k = int j" "inverse_of A ! j = int k"
    by blast
  show "compose A (inverse_of A) ! j = identity_of (length A) ! j"
    using j k by (simp add: compose_nth identity_of_def)
qed

lemma compose_inverse_left:
  assumes A: "is_perm A"
  shows "compose (inverse_of A) A = identity_of (length A)"
proof (rule nth_equalityI)
  show "length (compose (inverse_of A) A) = length (identity_of (length A))"
    by (simp add: identity_of_def)
next
  fix k assume "k < length (compose (inverse_of A) A)"
  then have k: "k < length A" by simp
  show "compose (inverse_of A) A ! k = identity_of (length A) ! k"
    using k inverse_of_nth[OF A k] by (simp add: compose_nth identity_of_def)
qed

lemma compose_identity_left:
  assumes B: "is_perm B"
  shows "compose (identity_of (length B)) B = B"
proof (rule nth_equalityI)
  show "length (compose (identity_of (length B)) B) = length B" by simp
next
  fix k assume "k < length (compose (identity_of (length B)) B)"
  then have k: "k < length B" by simp
  show "compose (identity_of (length B)) B ! k = B ! k"
    using k perm_range(3,4)[OF B k] by (simp add: compose_nth identity_of_def)
qed

lemma compose_identity_right: "compose A (identity_of (length A)) = A"
  by (rule nth_equalityI) (simp_all add: compose_nth identity_of_def)

subsection \<open>Stores of permutations\<close>

text \<open>A store of permutations: a well-formed repository in which ID 0 is the identity and every
  stored image is a permutation array.\<close>

definition perm_store :: "repo \<Rightarrow> bool" where
  "perm_store r \<longleftrightarrow>
     repo_inv r \<and> 0 < count r \<and> get r 0 = identity_of (globalDegree r)
     \<and> (\<forall>i<count r. is_perm (get r i))"

text \<open>\<open>store_ext r r'\<close>: \<open>r'\<close> is a store of permutations of the same degree that holds all
  permutations of \<open>r\<close> under their IDs.\<close>

definition store_ext :: "repo \<Rightarrow> repo \<Rightarrow> bool" where
  "store_ext r r' \<longleftrightarrow>
     perm_store r' \<and> globalDegree r' = globalDegree r \<and> count r \<le> count r'
     \<and> (\<forall>j<count r. get r' j = get r j)"

lemma store_ext_refl: "perm_store r \<Longrightarrow> store_ext r r"
  by (simp add: store_ext_def)

lemma store_ext_trans: "store_ext r r1 \<Longrightarrow> store_ext r1 r2 \<Longrightarrow> store_ext r r2"
  unfolding store_ext_def by auto

lemma perm_store_length:
  assumes "perm_store r" "i < count r"
  shows "length (get r i) = globalDegree r"
proof -
  from assms(1) have so: "store_ok r" unfolding perm_store_def repo_inv_def by blast
  then have "length (permBuffer r) = permCapacity r * globalDegree r" "i < permCapacity r"
    using assms(2) unfolding store_ok_def by simp_all
  then show ?thesis by (rule get_length)
qed

lemma read_image:
  assumes ps: "perm_store r" and i: "i < count r" and v: "0 \<le> v" "v < int (globalDegree r)"
  shows "ta_get (permBuffer r) (jadd (jmul (Some (int i)) (Some (int (globalDegree r)))) (Some v))
           = Some (get r i ! nat v)"
proof -
  let ?N = "globalDegree r"
  from ps have so: "store_ok r" unfolding perm_store_def repo_inv_def by blast
  then have len: "length (permBuffer r) = permCapacity r * ?N" and ic: "i < permCapacity r"
    using i unfolding store_ok_def by simp_all
  have k: "nat v < ?N" using v by simp
  have e: "int i * int ?N + v = int (i * ?N + nat v)" using v by simp
  have "(i + 1) * ?N \<le> length (permBuffer r)" using block_bound[OF ic, of ?N] len by simp
  then have b: "i * ?N + nat v < length (permBuffer r)" using k by simp
  have "ta_get (permBuffer r) (Some (int (i * ?N + nat v))) = Some (permBuffer r ! (i * ?N + nat v))"
    unfolding ta_get_nat using b by simp
  then show ?thesis
    unfolding jmul_Some jadd_Some e using get_nth[OF len ic k] by simp
qed

lemma fold_fill: "fold (\<lambda>k acc. acc[k := f k]) [0..<n] (replicate n z) = map f [0..<n]"
  by (rule nth_equalityI) (simp_all add: fold_images_length fold_images_nth)

lemma multiply_res:
  assumes ps: "perm_store r" and a: "a < count r" and b: "b < count r"
  shows "fold (\<lambda>k acc. ta_set acc (Some (int k))
                 (ta_get (permBuffer r)
                    (jadd (jmul (Some (int a)) (Some (int (globalDegree r))))
                       (ta_get (permBuffer r)
                          (jadd (jmul (Some (int b)) (Some (int (globalDegree r))))
                             (Some (int k)))))))
           [0..<globalDegree r] (replicate (globalDegree r) 0)
         = compose (get r a) (get r b)"
proof -
  let ?N = "globalDegree r"
  let ?g = "\<lambda>k acc. ta_set acc (Some (int k))
                 (ta_get (permBuffer r)
                    (jadd (jmul (Some (int a)) (Some (int ?N)))
                       (ta_get (permBuffer r)
                          (jadd (jmul (Some (int b)) (Some (int ?N))) (Some (int k))))))"
  let ?f = "\<lambda>k. get r a ! nat (get r b ! k)"
  have pb: "is_perm (get r b)" and lb: "length (get r b) = ?N"
    using ps b perm_store_length[OF ps b] unfolding perm_store_def by simp_all
  have g: "?g k = (\<lambda>acc. acc[k := ?f k])" if k: "k < ?N" for k
  proof -
    have kb: "k < length (get r b)" using k lb by simp
    have i1: "ta_get (permBuffer r) (jadd (jmul (Some (int b)) (Some (int ?N))) (Some (int k)))
                = Some (get r b ! k)"
      using read_image[OF ps b, of "int k"] k by simp
    have v: "0 \<le> get r b ! k" "get r b ! k < int ?N"
      using perm_range(1,2)[OF pb kb] lb by simp_all
    show ?thesis unfolding i1 read_image[OF ps a v] by (simp del: ta_get_nat ta_get_nat2)
  qed
  have "fold ?g [0..<?N] (replicate ?N 0) = fold (\<lambda>k acc. acc[k := ?f k]) [0..<?N] (replicate ?N 0)"
  proof (rule fold_cong[OF refl refl])
    fix k assume "k \<in> set [0..<?N]"
    then have "k < ?N" by simp
    then show "?g k = (\<lambda>acc. acc[k := ?f k])" by (rule g)
  qed
  also have "\<dots> = map ?f [0..<?N]" by (rule fold_fill)
  also have "\<dots> = compose (get r a) (get r b)" unfolding compose_def lb ..
  finally show ?thesis .
qed

lemma inverse_res:
  assumes ps: "perm_store r" and a: "a < count r"
  shows "fold (\<lambda>k acc. ta_set acc
                 (ta_get (permBuffer r)
                    (jadd (jmul (Some (int a)) (Some (int (globalDegree r)))) (Some (int k))))
                 (Some (int k)))
           [0..<globalDegree r] (replicate (globalDegree r) 0)
         = inverse_of (get r a)"
proof -
  let ?N = "globalDegree r"
  let ?g = "\<lambda>k acc. ta_set acc
                 (ta_get (permBuffer r)
                    (jadd (jmul (Some (int a)) (Some (int ?N))) (Some (int k))))
                 (Some (int k))"
  have pa: "is_perm (get r a)" and la: "length (get r a) = ?N"
    using ps a perm_store_length[OF ps a] unfolding perm_store_def by simp_all
  have g: "?g k = (\<lambda>acc. acc[nat (get r a ! k) := int k])" if k: "k < ?N" for k
  proof -
    have ka: "k < length (get r a)" using k la by simp
    have i1: "ta_get (permBuffer r) (jadd (jmul (Some (int a)) (Some (int ?N))) (Some (int k)))
                = Some (int (nat (get r a ! k)))"
      using read_image[OF ps a, of "int k"] k perm_range(4)[OF pa ka] by simp
    show ?thesis unfolding i1 by (rule ext) (simp only: ta_set_nat toInt32_simps)
  qed
  have "fold ?g [0..<?N] (replicate ?N 0)
          = fold (\<lambda>k acc. acc[nat (get r a ! k) := int k]) [0..<?N] (replicate ?N 0)"
  proof (rule fold_cong[OF refl refl])
    fix k assume "k \<in> set [0..<?N]"
    then have "k < ?N" by simp
    then show "?g k = (\<lambda>acc. acc[nat (get r a ! k) := int k])" by (rule g)
  qed
  then show ?thesis unfolding inverse_of_def la .
qed

lemma register_perm:
  assumes ps: "perm_store r" and p: "is_perm raw" and len: "length raw = globalDegree r"
  shows "\<exists>i r'. register r raw = (Some (int i), r') \<and> store_ext r r' \<and> i < count r'
           \<and> get r' i = raw"
proof -
  let ?N = "globalDegree r"
  from ps have inv: "repo_inv r" and c0: "0 < count r" and id0: "get r 0 = identity_of ?N"
    and perms: "\<And>j. j < count r \<Longrightarrow> is_perm (get r j)"
    unfolding perm_store_def by blast+
  have mx: "max ?N (length raw) = ?N" using len by simp
  have rng: "in_range (max ?N (length raw)) raw"
    unfolding mx in_range_def using p len unfolding is_perm_def by simp
  have fit: "length raw \<le> ?N \<or> length raw < 2 * INITIAL_TRIE_SLOTS" using len by simp
  from register_spec[OF inv rng fit] obtain i r' where
    reg: "register r raw = (Some (int i), r')" and inv': "repo_inv r'"
    and deg: "globalDegree r' = ?N" and ic: "i < count r'" and gi: "get r' i = pad ?N raw"
    and cnt: "count r \<le> count r'" "count r' \<le> count r + 1"
    and old: "\<And>j. j < count r \<Longrightarrow> get r' j = pad ?N (get r j)"
    and fresh: "count r' = count r + 1 \<longrightarrow> i = count r"
    unfolding mx by blast
  have gi': "get r' i = raw" using gi pad_id[OF len] by simp
  have old': "get r' j = get r j" if j: "j < count r" for j
    using old[OF j] pad_id[OF perm_store_length[OF ps j]] by simp
  have perms': "is_perm (get r' j)" if j: "j < count r'" for j
  proof (cases "j < count r")
    case True
    then show ?thesis using old'[OF True] perms[OF True] by simp
  next
    case False
    then have "count r' = count r + 1" "j = count r" using j cnt by linarith+
    then have "j = i" using fresh by simp
    then show ?thesis using gi' p by simp
  qed
  have ps': "perm_store r'"
    unfolding perm_store_def using inv' c0 cnt(1) old'[OF c0] id0 deg perms' by simp
  have "store_ext r r'" unfolding store_ext_def using ps' deg cnt(1) old' by simp
  with reg ic gi' show ?thesis by blast
qed

lemma multiply_spec:
  assumes ps: "perm_store r" and a: "a < count r" and b: "b < count r"
  shows "\<exists>c r'. multiply r (Some (int a)) (Some (int b)) = (Some (int c), r') \<and> store_ext r r'
           \<and> c < count r' \<and> get r' c = compose (get r a) (get r b)"
proof -
  let ?N = "globalDegree r"
  from ps have id0: "get r 0 = identity_of ?N"
    and perms: "\<And>j. j < count r \<Longrightarrow> is_perm (get r j)"
    unfolding perm_store_def by blast+
  note la = perm_store_length[OF ps a] and lb = perm_store_length[OF ps b]
  show ?thesis
  proof (cases "a = 0")
    case True
    have m: "multiply r (Some (int a)) (Some (int b)) = (Some (int b), r)"
      using True by (simp add: multiply_def)
    have "compose (get r a) (get r b) = get r b"
      using compose_identity_left[OF perms[OF b]] True id0 lb by simp
    with m store_ext_refl[OF ps] b show ?thesis by auto
  next
    case a0: False
    show ?thesis
    proof (cases "b = 0")
      case True
      have m: "multiply r (Some (int a)) (Some (int b)) = (Some (int a), r)"
        using True a0 by (simp add: multiply_def)
      have "compose (get r a) (get r b) = get r a"
        using compose_identity_right[of "get r a"] True id0 la by simp
      with m store_ext_refl[OF ps] a show ?thesis by auto
    next
      case b0: False
      have m: "multiply r (Some (int a)) (Some (int b)) = register r (compose (get r a) (get r b))"
        using a0 b0 unfolding multiply_def Let_def multiply_res[OF ps a b] by simp
      have p: "is_perm (compose (get r a) (get r b))"
        using is_perm_compose[OF perms[OF a] perms[OF b]] la lb by simp
      have l: "length (compose (get r a) (get r b)) = ?N" using lb by simp
      from register_perm[OF ps p l] show ?thesis unfolding m by blast
    qed
  qed
qed

lemma inverse_spec:
  assumes ps: "perm_store r" and a: "a < count r"
  shows "\<exists>c r'. inverse r (Some (int a)) = (Some (int c), r') \<and> store_ext r r'
           \<and> c < count r'
           \<and> compose (get r a) (get r' c) = identity_of (globalDegree r)
           \<and> compose (get r' c) (get r a) = identity_of (globalDegree r)"
proof -
  let ?N = "globalDegree r"
  from ps have id0: "get r 0 = identity_of ?N" and c0: "0 < count r"
    and perms: "\<And>j. j < count r \<Longrightarrow> is_perm (get r j)"
    unfolding perm_store_def by blast+
  note la = perm_store_length[OF ps a]
  show ?thesis
  proof (cases "a = 0")
    case True
    have m: "inverse r (Some (int a)) = (Some (int 0), r)"
      using True by (simp add: inverse_def)
    have "compose (get r 0) (get r 0) = identity_of ?N"
      using compose_identity_right[of "get r 0"] id0 by (simp add: identity_of_def)
    with m store_ext_refl[OF ps] c0 True show ?thesis by auto
  next
    case False
    have m: "inverse r (Some (int a)) = register r (inverse_of (get r a))"
      using False unfolding inverse_def Let_def inverse_res[OF ps a] by simp
    have p: "is_perm (inverse_of (get r a))" by (rule is_perm_inverse_of[OF perms[OF a]])
    have l: "length (inverse_of (get r a)) = ?N" using la by simp
    from register_perm[OF ps p l] obtain c r' where
      x: "register r (inverse_of (get r a)) = (Some (int c), r')" "store_ext r r'" "c < count r'"
        "get r' c = inverse_of (get r a)"
      by blast
    have "compose (get r a) (get r' c) = identity_of ?N"
      "compose (get r' c) (get r a) = identity_of ?N"
      unfolding x(4)
      using compose_inverse_right[OF perms[OF a]] compose_inverse_left[OF perms[OF a]] la
      by simp_all
    with x show ?thesis unfolding m by blast
  qed
qed

lemma store_ext_get:
  assumes "store_ext r r'" "j < count r"
  shows "get r' j = get r j" "j < count r'"
  using assms unfolding store_ext_def by auto

lemma store_ext_facts:
  assumes "store_ext r r'"
  shows "perm_store r'" "globalDegree r' = globalDegree r"
  using assms unfolding store_ext_def by auto

lemma identity_id:
  assumes ps: "perm_store r" and x: "x < count r"
    and g: "get r x = identity_of (globalDegree r)"
  shows "x = 0"
proof -
  from ps have inv: "repo_inv r" and c0: "0 < count r" and id0: "get r 0 = identity_of (globalDegree r)"
    unfolding perm_store_def by blast+
  show ?thesis by (rule repo_inv_unique[OF inv x c0]) (simp add: g id0)
qed

lemma multiply_assoc_ids:
  assumes ps: "perm_store r" and a: "a < count r" and b: "b < count r" and c: "c < count r"
  shows "fst (multiply (snd (multiply r (Some (int b)) (Some (int c)))) (Some (int a))
                (fst (multiply r (Some (int b)) (Some (int c)))))
       = fst (multiply
                (snd (multiply
                        (snd (multiply (snd (multiply r (Some (int b)) (Some (int c)))) (Some (int a))
                                (fst (multiply r (Some (int b)) (Some (int c))))))
                        (Some (int a)) (Some (int b))))
                (fst (multiply
                        (snd (multiply (snd (multiply r (Some (int b)) (Some (int c)))) (Some (int a))
                                (fst (multiply r (Some (int b)) (Some (int c))))))
                        (Some (int a)) (Some (int b))))
                (Some (int c)))"
proof -
  let ?A = "get r a" and ?B = "get r b" and ?C = "get r c"
  from ps have perms: "\<And>j. j < count r \<Longrightarrow> is_perm (get r j)" unfolding perm_store_def by blast
  from multiply_spec[OF ps b c] obtain bc r1 where
    m1: "multiply r (Some (int b)) (Some (int c)) = (Some (int bc), r1)" and e1: "store_ext r r1"
    and bc: "bc < count r1" and g1: "get r1 bc = compose ?B ?C"
    by blast
  note ps1 = store_ext_facts(1)[OF e1]
  note a1 = store_ext_get[OF e1 a]
  from multiply_spec[OF ps1 a1(2) bc] obtain x r2 where
    m2: "multiply r1 (Some (int a)) (Some (int bc)) = (Some (int x), r2)" and e2: "store_ext r1 r2"
    and x: "x < count r2" and g2: "get r2 x = compose (get r1 a) (get r1 bc)"
    by blast
  note ps2 = store_ext_facts(1)[OF e2]
  note e02 = store_ext_trans[OF e1 e2]
  note a2 = store_ext_get[OF e02 a] and b2 = store_ext_get[OF e02 b]
  from multiply_spec[OF ps2 a2(2) b2(2)] obtain ab r3 where
    m3: "multiply r2 (Some (int a)) (Some (int b)) = (Some (int ab), r3)" and e3: "store_ext r2 r3"
    and ab: "ab < count r3" and g3: "get r3 ab = compose (get r2 a) (get r2 b)"
    by blast
  note ps3 = store_ext_facts(1)[OF e3]
  note e03 = store_ext_trans[OF e02 e3]
  note c3 = store_ext_get[OF e03 c]
  from multiply_spec[OF ps3 ab c3(2)] obtain y r4 where
    m4: "multiply r3 (Some (int ab)) (Some (int c)) = (Some (int y), r4)" and e4: "store_ext r3 r4"
    and y: "y < count r4" and g4: "get r4 y = compose (get r3 ab) (get r3 c)"
    by blast
  note ps4 = store_ext_facts(1)[OF e4]
  have inv4: "repo_inv r4" using ps4 unfolding perm_store_def by blast
  note x3 = store_ext_get[OF e3 x]
  note x4 = store_ext_get[OF e4 x3(2)]
  have gx: "get r4 x = compose ?A (compose ?B ?C)"
    using x4(1) x3(1) g2 a1(1) g1 by simp
  have lb: "length ?B = length ?C"
    using perm_store_length[OF ps b] perm_store_length[OF ps c] by simp
  have gy: "get r4 y = compose (compose ?A ?B) ?C"
    using g4 g3 a2(1) b2(1) c3(1) by simp
  have "get r4 x = get r4 y"
    unfolding gx gy by (rule compose_assoc[OF perms[OF c] lb])
  from repo_inv_unique[OF inv4 x4(2) y this] have "x = y" .
  then show ?thesis unfolding m1 fst_conv snd_conv m2 m3 m4 by simp
qed

lemma multiply_inverse_ids:
  assumes ps: "perm_store r" and a: "a < count r"
  shows "fst (multiply (snd (inverse r (Some (int a)))) (Some (int a)) (fst (inverse r (Some (int a)))))
           = Some 0"
    and "fst (multiply (snd (inverse r (Some (int a)))) (fst (inverse r (Some (int a)))) (Some (int a)))
           = Some 0"
proof -
  from inverse_spec[OF ps a] obtain ia r1 where
    i1: "inverse r (Some (int a)) = (Some (int ia), r1)" and e1: "store_ext r r1"
    and ia: "ia < count r1"
    and r: "compose (get r a) (get r1 ia) = identity_of (globalDegree r)"
    and l: "compose (get r1 ia) (get r a) = identity_of (globalDegree r)"
    by blast
  note ps1 = store_ext_facts(1)[OF e1] and d1 = store_ext_facts(2)[OF e1]
  note a1 = store_ext_get[OF e1 a]
  from multiply_spec[OF ps1 a1(2) ia] obtain x r2 where
    m2: "multiply r1 (Some (int a)) (Some (int ia)) = (Some (int x), r2)" and e2: "store_ext r1 r2"
    and x: "x < count r2" and g2: "get r2 x = compose (get r1 a) (get r1 ia)"
    by blast
  have "get r2 x = identity_of (globalDegree r2)"
    using g2 a1(1) r d1 store_ext_facts(2)[OF e2] by simp
  from identity_id[OF store_ext_facts(1)[OF e2] x this] have x0: "x = 0" .
  show "fst (multiply (snd (inverse r (Some (int a)))) (Some (int a)) (fst (inverse r (Some (int a)))))
           = Some 0"
    unfolding i1 fst_conv snd_conv m2 using x0 by simp
  from multiply_spec[OF ps1 ia a1(2)] obtain y r3 where
    m3: "multiply r1 (Some (int ia)) (Some (int a)) = (Some (int y), r3)" and e3: "store_ext r1 r3"
    and y: "y < count r3" and g3: "get r3 y = compose (get r1 ia) (get r1 a)"
    by blast
  have "get r3 y = identity_of (globalDegree r3)"
    using g3 a1(1) l d1 store_ext_facts(2)[OF e3] by simp
  from identity_id[OF store_ext_facts(1)[OF e3] y this] have y0: "y = 0" .
  show "fst (multiply (snd (inverse r (Some (int a)))) (fst (inverse r (Some (int a)))) (Some (int a)))
           = Some 0"
    unfolding i1 fst_conv snd_conv m3 using y0 by simp
qed

lemma multiply_convention:
  assumes ps: "perm_store r" and a: "a < count r" and b: "b < count r"
  shows "\<exists>i. fst (multiply r (Some (int a)) (Some (int b))) = Some (int i)
           \<and> i < count (snd (multiply r (Some (int a)) (Some (int b))))
           \<and> (\<forall>k<globalDegree r.
                 get (snd (multiply r (Some (int a)) (Some (int b)))) i ! k
                   = get r a ! nat (get r b ! k))"
proof -
  from multiply_spec[OF ps a b] obtain i r' where
    m: "multiply r (Some (int a)) (Some (int b)) = (Some (int i), r')"
    and i: "i < count r'" and g: "get r' i = compose (get r a) (get r b)"
    by blast
  have "get r' i ! k = get r a ! nat (get r b ! k)" if "k < globalDegree r" for k
    unfolding g using that perm_store_length[OF ps b] by (simp add: compose_nth)
  with i show ?thesis unfolding m fst_conv snd_conv by blast
qed

lemma cycle_store:
  "perm_store (globalRepo heap_with_cycle)" "count (globalRepo heap_with_cycle) = 2"
proof -
  let ?r0 = "globalRepo initial_heap"
  let ?R = "globalRepo heap_with_cycle"
  have R: "?R = snd (register ?r0 [1, 2, 0])" by (simp add: heap_with_cycle_def)
  from cycle_repo show c2: "count ?R = 2" by auto
  have rng: "in_range (max (globalDegree ?r0) (length [1, 2, 0 :: int])) [1, 2, 0]"
    by (simp add: initial_repo(3) in_range_def)
  have fit: "length [1, 2, 0 :: int] \<le> globalDegree ?r0
             \<or> length [1, 2, 0 :: int] < 2 * INITIAL_TRIE_SLOTS"
    by (simp add: initial_repo(3))
  have mx: "max (globalDegree ?r0) (length [1, 2, 0 :: int]) = 4" by (simp add: initial_repo(3))
  from register_spec[OF initial_repo(2) rng fit] obtain i r' where
    reg: "register ?r0 [1, 2, 0] = (Some (int i), r')" and inv': "repo_inv r'"
    and deg: "globalDegree r' = 4" and ic: "i < count r'" and gi: "get r' i = pad 4 [1, 2, 0]"
    and old: "\<forall>j<count ?r0. get r' j = pad 4 (get ?r0 j)"
    and fresh: "count r' = count ?r0 + 1 \<longrightarrow> i = count ?r0"
    unfolding mx by blast
  have rr: "?R = r'" unfolding R reg by simp
  have i1: "i = 1" using fresh c2 initial_repo(4) unfolding rr by simp
  have g1: "get r' 1 = [1, 2, 0, 3]" using gi i1 by (simp add: pad_def upt_rec)
  have g0: "get r' 0 = [0, 1, 2, 3]"
    using old initial_repo(4,5) by (simp add: pad_def upt_rec)
  have id4: "identity_of 4 = [0, 1, 2, 3]" by (simp add: identity_of_def upt_rec)
  have perms: "\<forall>j<count r'. is_perm (get r' j)"
  proof (intro allI impI)
    fix j assume "j < count r'"
    then have "j = 0 \<or> j = 1" using c2 unfolding rr by auto
    then show "is_perm (get r' j)" using g0 g1 by (auto simp: is_perm_def)
  qed
  show "perm_store ?R"
    unfolding rr perm_store_def using inv' c2 g0 id4 deg perms unfolding rr by simp
qed

text \<open>
  Claim C2. In a store of permutations (a well-formed repository whose images are permutation
  arrays, with the identity under ID 0), for all interned IDs \<open>a\<close>, \<open>b\<close>, \<open>c\<close>: evaluating
  \<open>multiply(a, multiply(b, c))\<close> and then \<open>multiply(multiply(a, b), c)\<close> yields the same ID;
  \<open>multiply(a, inverse(a))\<close> and \<open>multiply(inverse(a), a)\<close> yield ID 0; and the image stored for
  \<open>multiply(a, b)\<close> maps every point \<open>k\<close> to \<open>perm_a[perm_b[k]]\<close>.
\<close>

theorem interned_ids_group_laws:
  assumes "perm_store r" "a < count r" "b < count r" "c < count r"
  shows "(let (bc, r1) = multiply r (Some (int b)) (Some (int c));
              (x, r2) = multiply r1 (Some (int a)) bc;
              (ab, r3) = multiply r2 (Some (int a)) (Some (int b));
              (y, r4) = multiply r3 ab (Some (int c))
          in x = y)
       \<and> (let (ia, r1) = inverse r (Some (int a));
               (x, r2) = multiply r1 (Some (int a)) ia
           in x = Some 0)
       \<and> (let (ia, r1) = inverse r (Some (int a));
               (x, r2) = multiply r1 ia (Some (int a))
           in x = Some 0)
       \<and> (let (ab, r1) = multiply r (Some (int a)) (Some (int b))
           in \<exists>i. ab = Some (int i) \<and> i < count r1
                \<and> (\<forall>k<globalDegree r. get r1 i ! k = get r a ! nat (get r b ! k)))"
  using multiply_assoc_ids[OF assms] multiply_inverse_ids[OF assms(1,2)]
    multiply_convention[OF assms(1,2,3)]
  by (simp add: Let_def case_prod_beta)

theorem interned_ids_group_laws_witness:
  "perm_store (globalRepo heap_with_cycle) \<and> 1 < count (globalRepo heap_with_cycle)
   \<and> (let (bc, r1) = multiply (globalRepo heap_with_cycle) (Some (int 1)) (Some (int 1));
          (x, r2) = multiply r1 (Some (int 1)) bc;
          (ab, r3) = multiply r2 (Some (int 1)) (Some (int 1));
          (y, r4) = multiply r3 ab (Some (int 1))
      in x = y)
   \<and> (let (ia, r1) = inverse (globalRepo heap_with_cycle) (Some (int 1));
           (x, r2) = multiply r1 (Some (int 1)) ia
       in x = Some 0)
   \<and> (let (ia, r1) = inverse (globalRepo heap_with_cycle) (Some (int 1));
           (x, r2) = multiply r1 ia (Some (int 1))
       in x = Some 0)
   \<and> (let (ab, r1) = multiply (globalRepo heap_with_cycle) (Some (int 1)) (Some (int 1))
       in \<exists>i. ab = Some (int i) \<and> i < count r1
            \<and> (\<forall>k<globalDegree (globalRepo heap_with_cycle).
                  get r1 i ! k = get (globalRepo heap_with_cycle) 1
                                   ! nat (get (globalRepo heap_with_cycle) 1 ! k)))"
proof -
  have one: "1 < count (globalRepo heap_with_cycle)" using cycle_store(2) by simp
  from interned_ids_group_laws[OF cycle_store(1) one one one] cycle_store(1) one
  show ?thesis by blast
qed

end
